theory Spec2Isabelle
  imports Main "HOL-Library.Word" "HOL-Library.Sublist"
begin

unbundle bit_operations_syntax

section \<open>The page-rendering worker of apps/playwright-service/main.py\<close>

text \<open>
  The service renders one URL per request in a headless browser. The browser engine, the
  file system and the clock are outside the repository: they are modelled as a record of
  answers (\<open>collaborators\<close>), one per capability the handler \<open>root\<close> calls, and every
  answer may be an exception. The handler itself is translated line by line; the calls
  it makes are logged in the order it makes them.
\<close>

subsection \<open>Request body and configuration (lines 17 to 31)\<close>

type_synonym bytes = "8 word list"

text \<open>\<open>class UrlModel(BaseModel)\<close>, with Python's unbounded \<open>int\<close> and an optional dict.\<close>

record UrlModel =
  url :: string
  wait_after_load :: int
  timeout :: int
  headers :: "(string \<times> string) list option"
  screenshot :: bool
  screenshot_full_page :: bool

text \<open>\<open>os.environ\<close>: a dictionary from variable names to strings.\<close>

type_synonym environ = "string \<rightharpoonup> string"

definition PROXY_SERVER :: "environ \<Rightarrow> string option" where
  "PROXY_SERVER env = env ''PROXY_SERVER''"

definition PROXY_USERNAME :: "environ \<Rightarrow> string option" where
  "PROXY_USERNAME env = env ''PROXY_USERNAME''"

definition PROXY_PASSWORD :: "environ \<Rightarrow> string option" where
  "PROXY_PASSWORD env = env ''PROXY_PASSWORD''"

text \<open>
  \<open>str.upper()\<close> on the letters a to z; every other character is left as it is (no
  character outside ASCII has T, R, U or E as its upper case).
\<close>

definition upper_char :: "char \<Rightarrow> char" where
  "upper_char c =
     (case map_of (zip ''abcdefghijklmnopqrstuvwxyz'' ''ABCDEFGHIJKLMNOPQRSTUVWXYZ'') c of
        None \<Rightarrow> c
      | Some d \<Rightarrow> d)"

definition upper :: "string \<Rightarrow> string" where
  "upper s = map upper_char s"

text \<open>\<open>BLOCK_MEDIA = environ.get("BLOCK_MEDIA", "False").upper() == "TRUE"\<close>\<close>

definition BLOCK_MEDIA :: "environ \<Rightarrow> bool" where
  "BLOCK_MEDIA env =
     (upper (case env ''BLOCK_MEDIA'' of None \<Rightarrow> ''False'' | Some s \<Rightarrow> s) = ''TRUE'')"

text \<open>
  Python's truth value of an optional string or dictionary: \<open>None\<close>, \<open>""\<close> and \<open>{}\<close> are
  false.
\<close>

fun truthy :: "'a list option \<Rightarrow> bool" where
  "truthy None = False"
| "truthy (Some s) = (s \<noteq> [])"

subsection \<open>The browser engine as seen by the handler\<close>

record proxy =
  server :: string
  username :: string
  password :: string

datatype route_decision = Abort | Continue

text \<open>
  One constructor per call the handler makes, named by receiver and method, with the
  arguments it passes. \<open>Context_route\<close> carries the glob and what its handler does with
  every request routed to it (the source's handler is \<open>route.abort()\<close>).
\<close>

datatype event =
    Browser_new_context "proxy option"
  | Context_route string route_decision
  | Context_new_page
  | Page_set_extra_http_headers "(string \<times> string) list"
  | Page_goto string string int
  | Page_wait_for_timeout int
  | Page_content
  | Page_screenshot string bool
  | Context_close

datatype exn = PlaywrightError string | AttributeError string | OSError string

text \<open>\<open>page.goto\<close> returns an optional \<open>Response\<close>, of which the handler reads \<open>status\<close>.\<close>

record response =
  status :: int

text \<open>
  What the outside world answers. Each answer is a function of the calls made so far
  (the last one being the call answered), so the engine may behave in any deterministic
  way; \<open>Inl\<close> is a raised exception. \<open>time_time\<close> is the text that \<open>format\<close> produces for
  \<open>time.time()\<close>.
\<close>

record collaborators =
  on_new_context :: "event list \<Rightarrow> exn + unit"
  on_route :: "event list \<Rightarrow> exn + unit"
  on_new_page :: "event list \<Rightarrow> exn + unit"
  on_set_extra_http_headers :: "event list \<Rightarrow> exn + unit"
  on_goto :: "event list \<Rightarrow> exn + response option"
  on_wait_for_timeout :: "event list \<Rightarrow> exn + unit"
  on_content :: "event list \<Rightarrow> exn + string"
  on_screenshot :: "event list \<Rightarrow> exn + bytes"
  on_close :: "event list \<Rightarrow> exn + unit"
  gettempdir :: string
  time_time :: string

text \<open>
  The state the handler acts on: the calls made so far, the number of browsing contexts
  open in the shared browser, and the files on disk.
\<close>

record world =
  calls :: "event list"
  contexts :: nat
  files :: "string \<rightharpoonup> bytes"

type_synonym 'a io = "world \<Rightarrow> (exn + 'a) \<times> world"

text \<open>Sequencing: an exception ends the handler where it is raised.\<close>

definition and_then :: "'a io \<Rightarrow> ('a \<Rightarrow> 'b io) \<Rightarrow> 'b io" where
  "and_then m f w = (case m w of (Inl e, w') \<Rightarrow> (Inl e, w') | (Inr a, w') \<Rightarrow> f a w')"

definition return :: "'a \<Rightarrow> 'a io" where
  "return a w = (Inr a, w)"

definition raise :: "exn \<Rightarrow> 'a io" where
  "raise e w = (Inl e, w)"

text \<open>An awaited call: it is logged, then answered.\<close>

definition invoke :: "event \<Rightarrow> (event list \<Rightarrow> exn + 'a) \<Rightarrow> 'a io" where
  "invoke ev answer w = (answer (calls w @ [ev]), w\<lparr>calls := calls w @ [ev]\<rparr>)"

definition new_context :: "collaborators \<Rightarrow> proxy option \<Rightarrow> unit io" where
  "new_context ext p =
     and_then (invoke (Browser_new_context p) (on_new_context ext))
       (\<lambda>_ w. (Inr (), w\<lparr>contexts := Suc (contexts w)\<rparr>))"

definition context_close :: "collaborators \<Rightarrow> unit io" where
  "context_close ext =
     and_then (invoke Context_close (on_close ext))
       (\<lambda>_ w. (Inr (), w\<lparr>contexts := contexts w - 1\<rparr>))"

text \<open>\<open>page.screenshot(path=...)\<close> writes the image to the path.\<close>

definition page_screenshot :: "collaborators \<Rightarrow> string \<Rightarrow> bool \<Rightarrow> unit io" where
  "page_screenshot ext path full_page =
     and_then (invoke (Page_screenshot path full_page) (on_screenshot ext))
       (\<lambda>img w. (Inr (), w\<lparr>files := (files w)(path \<mapsto> img)\<rparr>))"

text \<open>\<open>open(path, "rb").read()\<close>: a missing file raises.\<close>

definition read_file :: "string \<Rightarrow> bytes io" where
  "read_file path w =
     (case files w path of
        None \<Rightarrow> (Inl (OSError ''FileNotFoundError''), w)
      | Some data \<Rightarrow> (Inr data, w))"

subsection \<open>base64.b64encode\<close>

definition b64_alphabet :: string where
  "b64_alphabet = ''ABCDEFGHIJKLMNOPQRSTUVWXYZabcdefghijklmnopqrstuvwxyz0123456789+/''"

definition b64_char :: "8 word \<Rightarrow> char" where
  "b64_char i = b64_alphabet ! unat (i AND 63)"

fun b64encode :: "bytes \<Rightarrow> string" where
  "b64encode [] = []"
| "b64encode [a] =
     [b64_char (drop_bit 2 a), b64_char (push_bit 4 (a AND 3)), CHR ''='', CHR ''='']"
| "b64encode [a, b] =
     [b64_char (drop_bit 2 a), b64_char (push_bit 4 (a AND 3) OR drop_bit 4 b),
      b64_char (push_bit 2 (b AND 15)), CHR ''='']"
| "b64encode (a # b # c # rest) =
     [b64_char (drop_bit 2 a), b64_char (push_bit 4 (a AND 3) OR drop_bit 4 b),
      b64_char (push_bit 2 (b AND 15) OR drop_bit 6 c), b64_char (c AND 63)]
     @ b64encode rest"

subsection \<open>get_error (imported at line 15)\<close>

text \<open>Python's \<open>str\<close> of an integer, in decimal.\<close>

fun str_nat :: "nat \<Rightarrow> string" where
  "str_nat n =
     (if n < 10 then [''0123456789'' ! n]
      else str_nat (n div 10) @ [''0123456789'' ! (n mod 10)])"

declare str_nat.simps [simp del]

definition str_int :: "int \<Rightarrow> string" where
  "str_int i = (if i < 0 then CHR ''-'' # str_nat (nat (- i)) else str_nat (nat i))"

definition error_table :: "(int \<times> string) list" where
  "error_table =
     [(401, ''Unauthorized''), (403, ''Forbidden''), (404, ''Not Found''),
      (408, ''Request Timeout''), (429, ''Too Many Requests''),
      (500, ''Internal Server Error''), (502, ''Bad Gateway''),
      (503, ''Service Unavailable''), (504, ''Gateway Timeout'')]"

text \<open>
  Modelled from the spec: \<open>get_error\<close>, which main.py imports from the module get_error
  and which is not among the source files. Section 4.5 of the specification gives it as
  a total function from the status code: the listed codes map to the listed strings,
  every 2xx and 3xx code is unset, and every other code gets the generic text
  \<open>Unknown Error (status <code>)\<close>.
\<close>

definition get_error :: "int \<Rightarrow> string option" where
  "get_error code =
     (if 200 \<le> code \<and> code < 400 then None
      else case map_of error_table code of
             Some msg \<Rightarrow> Some msg
           | None \<Rightarrow> Some (''Unknown Error (status '' @ str_int code @ '')''))"

subsection \<open>The handler of POST /html (lines 61 to 124)\<close>

datatype json = JNull | JString string | JInt int

text \<open>A Python dict with string keys, in insertion order.\<close>

type_synonym json_dict = "(string \<times> json) list"

definition media_glob :: string where
  "media_glob = ''**/*.{png,jpg,jpeg,gif,svg,mp3,mp4,avi,flac,ogg,wav,webm}''"

text \<open>\<open>'{}/screenshot_{}.png'.format(tmp_dir, time.time())\<close>\<close>

definition tmp_file :: "collaborators \<Rightarrow> string" where
  "tmp_file ext = gettempdir ext @ ''/screenshot_'' @ time_time ext @ ''.png''"

definition json_of_optional :: "string option \<Rightarrow> json" where
  "json_of_optional v = (case v of None \<Rightarrow> JNull | Some s \<Rightarrow> JString s)"

text \<open>
  \<open>async def root(body: UrlModel)\<close>. Each \<open>and_then\<close> is one statement of the source, in
  its order; \<open>the\<close> is applied only under the \<open>truthy\<close> test that the source makes on the
  same value.
\<close>

definition root :: "environ \<Rightarrow> collaborators \<Rightarrow> UrlModel \<Rightarrow> json_dict io" where
  "root env ext body =
     and_then
       (if truthy (PROXY_SERVER env) \<and> truthy (PROXY_USERNAME env) \<and> truthy (PROXY_PASSWORD env)
        then new_context ext
               (Some \<lparr>server = the (PROXY_SERVER env),
                      username = the (PROXY_USERNAME env),
                      password = the (PROXY_PASSWORD env)\<rparr>)
        else new_context ext None) (\<lambda>_.
     and_then
       (if BLOCK_MEDIA env then invoke (Context_route media_glob Abort) (on_route ext)
        else return ()) (\<lambda>_.
     and_then (invoke Context_new_page (on_new_page ext)) (\<lambda>_.
     and_then
       (if truthy (headers body)
        then invoke (Page_set_extra_http_headers (the (headers body)))
               (on_set_extra_http_headers ext)
        else return ()) (\<lambda>_.
     and_then (invoke (Page_goto (url body) ''load'' (timeout body)) (on_goto ext)) (\<lambda>resp.
     and_then
       (case resp of
          None \<Rightarrow> raise (AttributeError ''status'')
        | Some r \<Rightarrow> return (status r)) (\<lambda>page_status_code.
     let page_error = get_error page_status_code in
     and_then
       (if wait_after_load body > 0
        then invoke (Page_wait_for_timeout (wait_after_load body)) (on_wait_for_timeout ext)
        else return ()) (\<lambda>_.
     and_then (invoke Page_content (on_content ext)) (\<lambda>page_content.
     and_then
       (if screenshot body \<or> screenshot_full_page body
        then and_then (page_screenshot ext (tmp_file ext) (screenshot_full_page body)) (\<lambda>_.
             and_then (read_file (tmp_file ext)) (\<lambda>image.
             return (Some (b64encode image))))
        else return None) (\<lambda>shot.
     and_then (context_close ext) (\<lambda>_.
     return
       ([(''content'', JString page_content),
         (''pageStatusCode'', JInt page_status_code),
         (''pageError'', json_of_optional page_error)]
        @ (if truthy shot then [(''screenshot'', JString (the shot))] else []))))))))))))"

subsection \<open>Parts of the handler's body, named for the proofs\<close>

text \<open>
  \<open>prelude\<close> is lines 72 to 94 (context, interception rule, page, headers) and \<open>rest\<close> is
  lines 103 to 124 (wait, content, screenshot, close, response), with the status code
  read at line 101 as parameter. Lemma \<open>root_parts\<close> below shows that \<open>root\<close> is the
  prelude, then the navigation of lines 96 to 101, then the rest.
\<close>

definition prelude :: "environ \<Rightarrow> collaborators \<Rightarrow> UrlModel \<Rightarrow> unit io" where
  "prelude env ext body =
     and_then
       (if truthy (PROXY_SERVER env) \<and> truthy (PROXY_USERNAME env) \<and> truthy (PROXY_PASSWORD env)
        then new_context ext
               (Some \<lparr>server = the (PROXY_SERVER env),
                      username = the (PROXY_USERNAME env),
                      password = the (PROXY_PASSWORD env)\<rparr>)
        else new_context ext None) (\<lambda>_.
     and_then
       (if BLOCK_MEDIA env then invoke (Context_route media_glob Abort) (on_route ext)
        else return ()) (\<lambda>_.
     and_then (invoke Context_new_page (on_new_page ext)) (\<lambda>_.
       (if truthy (headers body)
        then invoke (Page_set_extra_http_headers (the (headers body)))
               (on_set_extra_http_headers ext)
        else return ()))))"

definition rest :: "collaborators \<Rightarrow> UrlModel \<Rightarrow> int \<Rightarrow> json_dict io" where
  "rest ext body page_status_code =
     (let page_error = get_error page_status_code in
     and_then
       (if wait_after_load body > 0
        then invoke (Page_wait_for_timeout (wait_after_load body)) (on_wait_for_timeout ext)
        else return ()) (\<lambda>_.
     and_then (invoke Page_content (on_content ext)) (\<lambda>page_content.
     and_then
       (if screenshot body \<or> screenshot_full_page body
        then and_then (page_screenshot ext (tmp_file ext) (screenshot_full_page body)) (\<lambda>_.
             and_then (read_file (tmp_file ext)) (\<lambda>image.
             return (Some (b64encode image))))
        else return None) (\<lambda>shot.
     and_then (context_close ext) (\<lambda>_.
     return
       ([(''content'', JString page_content),
         (''pageStatusCode'', JInt page_status_code),
         (''pageError'', json_of_optional page_error)]
        @ (if truthy shot then [(''screenshot'', JString (the shot))] else [])))))))"

subsection \<open>The calls of a request\<close>

text \<open>The calls that a computation adds to the log.\<close>

definition calls_made :: "'a io \<Rightarrow> world \<Rightarrow> event list" where
  "calls_made m w = drop (length (calls w)) (calls (snd (m w)))"

text \<open>The argument of \<open>browser.new_context\<close> (lines 73 to 82).\<close>

definition context_proxy :: "environ \<Rightarrow> proxy option" where
  "context_proxy env =
     (if truthy (PROXY_SERVER env) \<and> truthy (PROXY_USERNAME env) \<and> truthy (PROXY_PASSWORD env)
      then Some \<lparr>server = the (PROXY_SERVER env), username = the (PROXY_USERNAME env),
                  password = the (PROXY_PASSWORD env)\<rparr>
      else None)"

text \<open>
  The calls of a request in which nothing raises, read off the handler's text: those up
  to the navigation, the navigation, the optional wait, and those after it.
\<close>

definition before :: "environ \<Rightarrow> UrlModel \<Rightarrow> event list" where
  "before env body =
     [Browser_new_context (context_proxy env)]
     @ (if BLOCK_MEDIA env then [Context_route media_glob Abort] else [])
     @ [Context_new_page]
     @ (if truthy (headers body) then [Page_set_extra_http_headers (the (headers body))] else [])"

definition navigation :: "UrlModel \<Rightarrow> event" where
  "navigation body = Page_goto (url body) ''load'' (timeout body)"

definition waiting :: "UrlModel \<Rightarrow> event list" where
  "waiting body =
     (if wait_after_load body > 0 then [Page_wait_for_timeout (wait_after_load body)] else [])"

definition capture :: "collaborators \<Rightarrow> UrlModel \<Rightarrow> event list" where
  "capture ext body =
     (if screenshot body \<or> screenshot_full_page body
      then [Page_screenshot (tmp_file ext) (screenshot_full_page body)] else [])"

definition after :: "collaborators \<Rightarrow> UrlModel \<Rightarrow> event list" where
  "after ext body = waiting body @ [Page_content] @ capture ext body @ [Context_close]"

definition script :: "environ \<Rightarrow> collaborators \<Rightarrow> UrlModel \<Rightarrow> event list" where
  "script env ext body = before env body @ [navigation body] @ after ext body"

definition base_fields :: "string \<Rightarrow> int \<Rightarrow> json_dict" where
  "base_fields page_content page_status_code =
     [(''content'', JString page_content),
      (''pageStatusCode'', JInt page_status_code),
      (''pageError'', json_of_optional (get_error page_status_code))]"

text \<open>The position of a call in the handler's text.\<close>

fun stage :: "event \<Rightarrow> nat" where
  "stage (Browser_new_context _) = 0"
| "stage (Context_route _ _) = 1"
| "stage Context_new_page = 2"
| "stage (Page_set_extra_http_headers _) = 3"
| "stage (Page_goto _ _ _) = 4"
| "stage (Page_wait_for_timeout _) = 5"
| "stage Page_content = 6"
| "stage (Page_screenshot _ _) = 7"
| "stage Context_close = 8"

text \<open>The time that the calls ask the engine to wait.\<close>

fun wait_of :: "event \<Rightarrow> int" where
  "wait_of (Page_wait_for_timeout n) = n"
| "wait_of _ = 0"

definition total_wait :: "event list \<Rightarrow> int" where
  "total_wait evs = sum_list (map wait_of evs)"

text \<open>A field of the response: a key that is there with a string as its value.\<close>

definition field :: "string \<Rightarrow> json_dict \<Rightarrow> string option" where
  "field k res = (case map_of res k of Some (JString s) \<Rightarrow> Some s | _ \<Rightarrow> None)"

text \<open>How many of the calls create a browsing context, and how many close one.\<close>

fun is_new_context :: "event \<Rightarrow> bool" where
  "is_new_context (Browser_new_context _) = True"
| "is_new_context _ = False"

definition opened :: "event list \<Rightarrow> nat" where
  "opened evs = length (filter is_new_context evs)"

definition closed :: "event list \<Rightarrow> nat" where
  "closed evs = length (filter (\<lambda>ev. ev = Context_close) evs)"

subsection \<open>Concrete engines and requests\<close>

definition png_magic :: bytes where
  "png_magic = [0x89, 0x50, 0x4E, 0x47]"

text \<open>An engine where every call succeeds, serving a page with the given status.\<close>

definition serving :: "int \<Rightarrow> collaborators" where
  "serving code =
     \<lparr>on_new_context = (\<lambda>_. Inr ()), on_route = (\<lambda>_. Inr ()), on_new_page = (\<lambda>_. Inr ()),
      on_set_extra_http_headers = (\<lambda>_. Inr ()),
      on_goto = (\<lambda>_. Inr (Some \<lparr>status = code\<rparr>)),
      on_wait_for_timeout = (\<lambda>_. Inr ()), on_content = (\<lambda>_. Inr ''<html>ok</html>''),
      on_screenshot = (\<lambda>_. Inr png_magic), on_close = (\<lambda>_. Inr ()),
      gettempdir = ''/tmp'', time_time = ''1.5''\<rparr>"

text \<open>The same engine, but the navigation times out.\<close>

definition unreachable :: collaborators where
  "unreachable = (serving 200)\<lparr>on_goto := (\<lambda>_. Inl (PlaywrightError ''Timeout 100ms exceeded''))\<rparr>"

text \<open>The same engine, but the navigation yields no response object.\<close>

definition responseless :: collaborators where
  "responseless = (serving 200)\<lparr>on_goto := (\<lambda>_. Inr None)\<rparr>"

definition plain_request :: UrlModel where
  "plain_request =
     \<lparr>url = ''https://example.com'', wait_after_load = 0, timeout = 5000, headers = None,
      screenshot = False, screenshot_full_page = False\<rparr>"

definition idle :: world where
  "idle = \<lparr>calls = [], contexts = 0, files = Map.empty\<rparr>"

text \<open>An environment with a proxy server and user name but no password, and a full one.\<close>

definition partial_proxy :: environ where
  "partial_proxy = [''PROXY_SERVER'' \<mapsto> ''http://proxy:8080'', ''PROXY_USERNAME'' \<mapsto> ''user'']"

definition full_proxy :: environ where
  "full_proxy = partial_proxy(''PROXY_PASSWORD'' \<mapsto> ''secret'')"

text \<open>A request for a viewport screenshot.\<close>

definition snapshot_request :: UrlModel where
  "snapshot_request = plain_request\<lparr>screenshot := True\<rparr>"

text \<open>A request with custom headers and a wait of 250 ms after the load.\<close>

definition patient_request :: UrlModel where
  "patient_request = plain_request\<lparr>wait_after_load := 250, headers := Some [(''X-Test'', ''1'')]\<rparr>"

subsection \<open>Case-insensitive comparison, as the specification words it\<close>

definition lower_char :: "char \<Rightarrow> char" where
  "lower_char c =
     (case map_of (zip ''ABCDEFGHIJKLMNOPQRSTUVWXYZ'' ''abcdefghijklmnopqrstuvwxyz'') c of
        None \<Rightarrow> c
      | Some d \<Rightarrow> d)"

definition case_insensitive_equal :: "string \<Rightarrow> string \<Rightarrow> bool" where
  "case_insensitive_equal s t = (map lower_char s = map lower_char t)"

subsection \<open>The engine's interception rules\<close>

text \<open>
  The engine matches the URL of each request of a page against the globs registered with
  \<open>context.route\<close>. This is the engine's documented matching for the constructs that
  \<open>media_glob\<close> uses: \<open>**/\<close> stands for any number of path segments, each ending in a
  slash, \<open>*\<close> for any characters but a slash, and \<open>{a,b}\<close> for one of the alternatives;
  the glob has to match the whole URL.
\<close>

datatype glob_token = Any_dirs | Any_name | Literal char | One_of "string list"

fun split_commas :: "string \<Rightarrow> string \<Rightarrow> string list" where
  "split_commas cur [] = [cur]"
| "split_commas cur (c # cs) =
     (if c = CHR '','' then cur # split_commas [] cs else split_commas (cur @ [c]) cs)"

function glob_tokens :: "string \<Rightarrow> glob_token list" where
  "glob_tokens [] = []"
| "glob_tokens (c # cs) =
     (if c = CHR ''*'' then
        (if take 2 cs = ''*/'' then Any_dirs # glob_tokens (drop 2 cs)
         else Any_name # glob_tokens cs)
      else if c = CHR ''{'' then
        One_of (split_commas [] (takeWhile (\<lambda>x. x \<noteq> CHR ''}'') cs))
          # glob_tokens (drop 1 (dropWhile (\<lambda>x. x \<noteq> CHR ''}'') cs))
      else Literal c # glob_tokens cs)"
  by pat_completeness auto
termination
proof (relation "measure length")
  fix c :: char and cs :: string
  have "length (dropWhile (\<lambda>x. x \<noteq> CHR ''}'') cs) \<le> length cs"
    by (rule length_dropWhile_le)
  then show "(drop 1 (dropWhile (\<lambda>x. x \<noteq> CHR ''}'') cs), c # cs) \<in> measure length"
    by simp
qed simp_all

fun matches :: "glob_token list \<Rightarrow> string \<Rightarrow> bool" where
  "matches [] s = (s = [])"
| "matches (Literal c # ts) s = (case s of [] \<Rightarrow> False | x # xs \<Rightarrow> x = c \<and> matches ts xs)"
| "matches (One_of alts # ts) s =
     (\<exists>a \<in> set alts. prefix a s \<and> matches ts (drop (length a) s))"
| "matches (Any_name # ts) s =
     (\<exists>n \<in> {..length s}. CHR ''/'' \<notin> set (take n s) \<and> matches ts (drop n s))"
| "matches (Any_dirs # ts) s =
     (\<exists>n \<in> {..length s}.
        (take n s = [] \<or> last (take n s) = CHR ''/'' \<or> drop n s = [])
        \<and> matches ts (drop n s))"

definition url_matches :: "string \<Rightarrow> string \<Rightarrow> bool" where
  "url_matches glob u = matches (glob_tokens glob) u"

text \<open>
  What happens to a request for the URL \<open>u\<close> of a page, given the calls made on its
  context: the rule registered last that matches decides, and a request that no rule
  matches continues to the network.
\<close>

fun routed :: "event list \<Rightarrow> string \<Rightarrow> route_decision option" where
  "routed [] u = None"
| "routed (ev # evs) u =
     (case routed evs u of
        Some d \<Rightarrow> Some d
      | None \<Rightarrow>
          (case ev of
             Context_route glob d \<Rightarrow> if url_matches glob u then Some d else None
           | _ \<Rightarrow> None))"

definition intercept :: "event list \<Rightarrow> string \<Rightarrow> route_decision" where
  "intercept evs u = (case routed evs u of None \<Rightarrow> Continue | Some d \<Rightarrow> d)"

text \<open>The media extensions that the specification lists.\<close>

definition media_extensions :: "string list" where
  "media_extensions =
     [''png'', ''jpg'', ''jpeg'', ''gif'', ''svg'', ''mp3'', ''mp4'', ''avi'', ''flac'',
      ''ogg'', ''wav'', ''webm'']"

text \<open>An environment that turns media blocking on.\<close>

definition blocking :: environ where
  "blocking = [''BLOCK_MEDIA'' \<mapsto> ''True'']"

text \<open>
  The resource path of a request, as the specification words it: its URL without the
  query string and the fragment.
\<close>

definition resource_path :: "string \<Rightarrow> string" where
  "resource_path u = takeWhile (\<lambda>c. c \<noteq> CHR ''?'' \<and> c \<noteq> CHR ''#'') u"

section \<open>The handler, part by part\<close>

lemmas io_defs = and_then_def return_def raise_def invoke_def new_context_def context_close_def
  page_screenshot_def read_file_def

lemma and_then_assoc: "and_then (and_then m f) g = and_then m (\<lambda>a. and_then (f a) g)"
  by (rule ext) (simp add: and_then_def split: prod.splits sum.splits)

lemma root_parts:
  "root env ext body =
     and_then (prelude env ext body) (\<lambda>_.
     and_then (invoke (Page_goto (url body) ''load'' (timeout body)) (on_goto ext)) (\<lambda>resp.
     and_then (case resp of None \<Rightarrow> raise (AttributeError ''status'') | Some r \<Rightarrow> return (status r))
       (rest ext body)))"
  unfolding root_def prelude_def rest_def and_then_assoc Let_def ..

lemma prelude_run:
  assumes "prelude env ext body w = (r, w')"
  shows "\<exists>evs. calls w' = calls w @ evs \<and> evs \<noteq> [] \<and> prefix evs (before env body)
           \<and> files w' = files w
           \<and> contexts w' = (if length evs = 1 then contexts w else Suc (contexts w))
           \<and> (\<forall>u. r = Inr u \<longrightarrow> evs = before env body)"
  using assms unfolding prelude_def before_def context_proxy_def io_defs
  by (auto split: sum.splits if_splits)

lemma rest_run:
  assumes "rest ext body code w = (r, w')"
  shows "\<exists>evs. calls w' = calls w @ evs \<and> evs \<noteq> [] \<and> prefix evs (after ext body)
           \<and> (\<forall>e. r = Inl e \<longrightarrow> contexts w' = contexts w
                  \<and> (Context_close \<in> set evs \<longrightarrow>
                        last evs = Context_close \<and> on_close ext (calls w') = Inl e))
           \<and> (\<forall>res. r = Inr res \<longrightarrow> evs = after ext body \<and> contexts w' = contexts w - 1
                  \<and> (\<exists>page_content extra.
                        on_content ext (calls w @ waiting body @ [Page_content]) = Inr page_content
                        \<and> res = base_fields page_content code @ extra
                        \<and> (if screenshot body \<or> screenshot_full_page body
                             then \<exists>image.
                                    on_screenshot ext
                                      (calls w @ waiting body
                                         @ [Page_content,
                                            Page_screenshot (tmp_file ext) (screenshot_full_page body)])
                                      = Inr image
                                    \<and> files w' = (files w)(tmp_file ext \<mapsto> image)
                                    \<and> extra = (if b64encode image \<noteq> []
                                                 then [(''screenshot'', JString (b64encode image))]
                                                 else [])
                             else files w' = files w \<and> extra = [])))"
  using assms unfolding rest_def Let_def after_def waiting_def capture_def base_fields_def io_defs
  by (auto split: sum.splits if_splits)

lemma root_cases:
  assumes "root env ext body w = (r, w')"
  obtains
    (prelude_raises) e where "prelude env ext body w = (Inl e, w')" "r = Inl e"
  | (goto_raises) w1 e where "prelude env ext body w = (Inr (), w1)"
      "on_goto ext (calls w1 @ [navigation body]) = Inl e" "r = Inl e"
      "w' = w1\<lparr>calls := calls w1 @ [navigation body]\<rparr>"
  | (no_response) w1 where "prelude env ext body w = (Inr (), w1)"
      "on_goto ext (calls w1 @ [navigation body]) = Inr None" "r = Inl (AttributeError ''status'')"
      "w' = w1\<lparr>calls := calls w1 @ [navigation body]\<rparr>"
  | (navigated) w1 resp where "prelude env ext body w = (Inr (), w1)"
      "on_goto ext (calls w1 @ [navigation body]) = Inr (Some resp)"
      "rest ext body (status resp) (w1\<lparr>calls := calls w1 @ [navigation body]\<rparr>) = (r, w')"
  using assms unfolding root_parts navigation_def
  by (auto simp: and_then_def invoke_def raise_def return_def
      split: sum.splits prod.splits option.splits)

lemma length_before: "2 \<le> length (before env body)"
  by (simp add: before_def)

lemma root_trace:
  assumes "root env ext body w = (r, w')"
  shows "\<exists>evs. calls w' = calls w @ evs \<and> evs \<noteq> [] \<and> prefix evs (script env ext body)"
  using assms
proof (cases rule: root_cases)
  case (prelude_raises e)
  from prelude_run[OF prelude_raises(1)] show ?thesis
    by (auto simp: script_def)
next
  case (goto_raises w1 e)
  from prelude_run[OF goto_raises(1)] show ?thesis
    using goto_raises(4) by (auto simp: script_def)
next
  case (no_response w1)
  from prelude_run[OF no_response(1)] show ?thesis
    using no_response(4) by (auto simp: script_def)
next
  case (navigated w1 resp)
  from prelude_run[OF navigated(1)] rest_run[OF navigated(3)] show ?thesis
    by (auto simp: script_def)
qed

lemma calls_made_eq:
  assumes "m w = (r, w')" "calls w' = calls w @ evs"
  shows "calls_made m w = evs"
  using assms by (simp add: calls_made_def)

lemma root_success:
  assumes "root env ext body w = (Inr res, w')"
  shows "calls w' = calls w @ script env ext body \<and> contexts w' = contexts w
    \<and> (\<exists>resp page_content extra.
          on_goto ext (calls w @ before env body @ [navigation body]) = Inr (Some resp)
        \<and> on_content ext (calls w @ before env body @ [navigation body] @ waiting body @ [Page_content])
            = Inr page_content
        \<and> res = base_fields page_content (status resp) @ extra
        \<and> (if screenshot body \<or> screenshot_full_page body
            then \<exists>image.
                   on_screenshot ext
                     (calls w @ before env body @ [navigation body] @ waiting body
                        @ [Page_content, Page_screenshot (tmp_file ext) (screenshot_full_page body)])
                     = Inr image
                   \<and> files w' = (files w)(tmp_file ext \<mapsto> image)
                   \<and> extra = (if b64encode image \<noteq> []
                                then [(''screenshot'', JString (b64encode image))] else [])
            else files w' = files w \<and> extra = []))"
  using assms
proof (cases rule: root_cases)
  case (navigated w1 resp)
  define w2 where "w2 = w1\<lparr>calls := calls w1 @ [navigation body]\<rparr>"
  from prelude_run[OF navigated(1)] length_before[of env body]
  have w1: "calls w1 = calls w @ before env body" "files w1 = files w"
    "contexts w1 = Suc (contexts w)"
    by auto
  then have w2: "calls w2 = calls w @ before env body @ [navigation body]" "files w2 = files w"
    "contexts w2 = Suc (contexts w)"
    by (simp_all add: w2_def)
  have goto: "on_goto ext (calls w @ before env body @ [navigation body]) = Inr (Some resp)"
    using navigated(2) w1 by simp
  have "rest ext body (status resp) w2 = (Inr res, w')"
    using navigated(3) by (simp add: w2_def)
  from rest_run[OF this] have
    "calls w' = calls w2 @ after ext body" "contexts w' = contexts w2 - 1"
    "\<exists>page_content extra.
        on_content ext (calls w2 @ waiting body @ [Page_content]) = Inr page_content
      \<and> res = base_fields page_content (status resp) @ extra
      \<and> (if screenshot body \<or> screenshot_full_page body
          then \<exists>image.
                 on_screenshot ext
                   (calls w2 @ waiting body
                      @ [Page_content, Page_screenshot (tmp_file ext) (screenshot_full_page body)])
                   = Inr image
                 \<and> files w' = (files w2)(tmp_file ext \<mapsto> image)
                 \<and> extra = (if b64encode image \<noteq> []
                              then [(''screenshot'', JString (b64encode image))] else [])
          else files w' = files w2 \<and> extra = [])"
    by blast+
  with goto show ?thesis
    unfolding w2 script_def by (simp split del: if_split cong: if_cong)
qed simp_all

lemma script_no_wait:
  "wait_after_load body \<le> 0 \<Longrightarrow> Page_wait_for_timeout t \<notin> set (script env ext body)"
  by (simp add: script_def before_def navigation_def after_def waiting_def capture_def)

lemma stage_before: "ev \<in> set (before env body) \<Longrightarrow> stage ev < 4"
  by (auto simp: before_def split: if_splits)

lemma stage_navigation: "stage (navigation body) = 4"
  by (simp add: navigation_def)

lemma navigation_not_before: "navigation body \<notin> set (before env body)"
  using stage_before[of "navigation body" env body] by (auto simp: stage_navigation)

lemma root_at_goto:
  assumes "root env ext body w = (r, w')"
  obtains
    (early) e evs where "r = Inl e" "calls w' = calls w @ evs" "evs \<noteq> []"
      "prefix evs (before env body)" "files w' = files w"
      "contexts w' = (if length evs = 1 then contexts w else Suc (contexts w))"
  | (raised) e where "on_goto ext (calls w @ before env body @ [navigation body]) = Inl e"
      "r = Inl e" "calls w' = calls w @ before env body @ [navigation body]"
      "contexts w' = Suc (contexts w)" "files w' = files w"
  | (none) "on_goto ext (calls w @ before env body @ [navigation body]) = Inr None"
      "r = Inl (AttributeError ''status'')"
      "calls w' = calls w @ before env body @ [navigation body]"
      "contexts w' = Suc (contexts w)" "files w' = files w"
  | (some) resp w2 where
      "on_goto ext (calls w @ before env body @ [navigation body]) = Inr (Some resp)"
      "calls w2 = calls w @ before env body @ [navigation body]"
      "contexts w2 = Suc (contexts w)" "files w2 = files w"
      "rest ext body (status resp) w2 = (r, w')"
  using assms
proof (cases rule: root_cases)
  case (prelude_raises e)
  from prelude_run[OF prelude_raises(1)] prelude_raises(2) early show ?thesis
    by blast
next
  case (goto_raises w1 e)
  from prelude_run[OF goto_raises(1)] length_before[of env body]
  have "calls w1 = calls w @ before env body" "files w1 = files w"
    "contexts w1 = Suc (contexts w)"
    by auto
  with goto_raises raised show ?thesis
    by simp
next
  case (no_response w1)
  from prelude_run[OF no_response(1)] length_before[of env body]
  have "calls w1 = calls w @ before env body" "files w1 = files w"
    "contexts w1 = Suc (contexts w)"
    by auto
  with no_response none show ?thesis
    by simp
next
  case (navigated w1 resp)
  from prelude_run[OF navigated(1)] length_before[of env body]
  have "calls w1 = calls w @ before env body" "files w1 = files w"
    "contexts w1 = Suc (contexts w)"
    by auto
  with navigated some[of resp "w1\<lparr>calls := calls w1 @ [navigation body]\<rparr>"] show ?thesis
    by simp
qed

lemma script_shape:
  "\<exists>p mid. script env ext body = Browser_new_context p # mid @ [Context_close]
     \<and> (\<forall>ev \<in> set mid. \<not> is_new_context ev \<and> ev \<noteq> Context_close)"
  by (auto simp: script_def before_def navigation_def after_def waiting_def capture_def)

lemma prefix_of_script:
  assumes "prefix evs (script env ext body)" "evs \<noteq> []"
  shows "opened evs = 1
       \<and> (if evs = script env ext body then closed evs = 1 \<and> last evs = Context_close
           else closed evs = 0 \<and> Context_close \<notin> set evs)"
proof -
  from script_shape obtain p mid where
    s: "script env ext body = Browser_new_context p # mid @ [Context_close]"
    and mid: "\<forall>ev \<in> set mid. \<not> is_new_context ev \<and> ev \<noteq> Context_close"
    by blast
  from assms obtain ys where ys: "evs = Browser_new_context p # ys" "prefix ys (mid @ [Context_close])"
    unfolding s by (auto simp: prefix_Cons)
  from mid have nomid: "filter is_new_context mid = []" "filter (\<lambda>ev. ev = Context_close) mid = []"
    by (auto simp: filter_empty_conv)
  from ys(2) consider "ys = mid @ [Context_close]" | "prefix ys mid"
    by (auto simp: prefix_snoc)
  then show ?thesis
  proof cases
    case 1
    then show ?thesis
      unfolding s ys(1) opened_def closed_def using nomid by simp
  next
    case 2
    then have sub: "set ys \<subseteq> set mid"
      by (rule set_mono_prefix)
    with mid have "filter is_new_context ys = []" "filter (\<lambda>ev. ev = Context_close) ys = []"
      "Context_close \<notin> set ys"
      by (auto simp: filter_empty_conv)
    moreover have "ys \<noteq> mid @ [Context_close]"
      using sub mid by auto
    ultimately show ?thesis
      unfolding s ys(1) opened_def closed_def by simp
  qed
qed

lemma root_failure_contexts:
  assumes "root env ext body w = (Inl e, w')" "calls w' = calls w @ evs"
  shows "contexts w' = (if length evs = 1 then contexts w else Suc (contexts w))"
  using assms(1)
proof (cases rule: root_at_goto)
  case (early e' evs')
  with assms(2) show ?thesis by simp
next
  case (raised e')
  with assms(2) length_before[of env body] show ?thesis by auto
next
  case none
  with assms(2) length_before[of env body] show ?thesis by auto
next
  case (some resp w2)
  from rest_run[OF some(5)] obtain evs2 where
    "calls w' = calls w2 @ evs2" "evs2 \<noteq> []" "contexts w' = contexts w2"
    by blast
  with some(2,3) assms(2) length_before[of env body] show ?thesis
    by (cases evs2) auto
qed

lemma root_first_call:
  assumes "root env ext body w = (r, w')"
  shows "\<exists>tail. calls_made (root env ext body) w = Browser_new_context (context_proxy env) # tail"
proof -
  from root_trace[OF assms] obtain evs where
    evs: "calls w' = calls w @ evs" "evs \<noteq> []" "prefix evs (script env ext body)"
    by blast
  have made: "calls_made (root env ext body) w = evs"
    using assms evs(1) by (rule calls_made_eq)
  from evs(2,3) show ?thesis
    unfolding made by (auto simp: script_def before_def prefix_Cons)
qed

lemma error_table_distinct: "distinct (map fst error_table)"
  by (simp add: error_table_def)

lemma error_table_codes: "\<forall>c \<in> set (map fst error_table). 400 \<le> c"
  by (simp add: error_table_def)

lemma get_error_table:
  assumes "(code, msg) \<in> set error_table"
  shows "get_error code = Some msg"
proof -
  from assms have "map_of error_table code = Some msg"
    using error_table_distinct by (rule map_of_is_SomeI[rotated])
  moreover from assms have "code \<in> set (map fst error_table)"
    by force
  with error_table_codes have "400 \<le> code"
    by blast
  ultimately show ?thesis
    by (simp add: get_error_def)
qed

lemma get_error_None_iff: "get_error code = None \<longleftrightarrow> 200 \<le> code \<and> code < 400"
  by (simp add: get_error_def split: option.splits)

lemma get_error_fallback:
  assumes "\<not> (200 \<le> code \<and> code < 400)" "code \<notin> fst ` set error_table"
  shows "get_error code = Some (''Unknown Error (status '' @ str_int code @ '')'')"
proof -
  from assms(2) have "map_of error_table code = None"
    by (simp add: map_of_eq_None_iff)
  with assms(1) show ?thesis
    by (simp add: get_error_def)
qed

lemma field_json_of_optional:
  "map_of res k = Some (json_of_optional v) \<Longrightarrow> field k res = v"
  by (cases v) (simp_all add: field_def json_of_optional_def)

lemma root_status_fields:
  assumes "root env ext body w = (Inr res, w')"
  shows "\<exists>resp. on_goto ext (calls w @ before env body @ [navigation body]) = Inr (Some resp)
           \<and> map_of res ''pageStatusCode'' = Some (JInt (status resp))
           \<and> map_of res ''pageError'' = Some (json_of_optional (get_error (status resp)))"
proof -
  from root_success[OF assms] obtain resp page_content extra where
    "on_goto ext (calls w @ before env body @ [navigation body]) = Inr (Some resp)"
    "res = base_fields page_content (status resp) @ extra"
    by blast
  then show ?thesis
    by (simp add: base_fields_def)
qed

lemma b64encode_Nil_iff: "b64encode img = [] \<longleftrightarrow> img = []"
  by (cases img rule: b64encode.cases) simp_all

lemma map_of_base_fields_screenshot:
  "map_of (base_fields page_content code @ extra) ''screenshot'' = map_of extra ''screenshot''"
  by (simp add: base_fields_def)

lemma screenshot_in_script:
  "screenshot body \<or> screenshot_full_page body \<Longrightarrow>
     Page_screenshot (tmp_file ext) (screenshot_full_page body) \<in> set (script env ext body)"
  by (simp add: script_def after_def capture_def)

lemma root_success_fields:
  assumes "root env ext body w = (Inr res, w')"
  obtains resp page_content extra where
    "on_goto ext (calls w @ before env body @ [navigation body]) = Inr (Some resp)"
    "on_content ext (calls w @ before env body @ [navigation body] @ waiting body @ [Page_content])
       = Inr page_content"
    "res = base_fields page_content (status resp) @ extra"
    "screenshot body \<or> screenshot_full_page body \<Longrightarrow>
       \<exists>img. on_screenshot ext
                (calls w @ before env body @ [navigation body] @ waiting body
                   @ [Page_content, Page_screenshot (tmp_file ext) (screenshot_full_page body)])
                = Inr img
            \<and> files w' = (files w)(tmp_file ext \<mapsto> img)
            \<and> extra = (if b64encode img \<noteq> []
                        then [(''screenshot'', JString (b64encode img))] else [])"
    "\<not> (screenshot body \<or> screenshot_full_page body) \<Longrightarrow> files w' = files w \<and> extra = []"
proof -
  from root_success[OF assms] have
    "\<exists>resp page_content extra.
          on_goto ext (calls w @ before env body @ [navigation body]) = Inr (Some resp)
        \<and> on_content ext (calls w @ before env body @ [navigation body] @ waiting body @ [Page_content])
            = Inr page_content
        \<and> res = base_fields page_content (status resp) @ extra
        \<and> (if screenshot body \<or> screenshot_full_page body
            then \<exists>image.
                   on_screenshot ext
                     (calls w @ before env body @ [navigation body] @ waiting body
                        @ [Page_content, Page_screenshot (tmp_file ext) (screenshot_full_page body)])
                     = Inr image
                   \<and> files w' = (files w)(tmp_file ext \<mapsto> image)
                   \<and> extra = (if b64encode image \<noteq> []
                                then [(''screenshot'', JString (b64encode image))] else [])
            else files w' = files w \<and> extra = [])"
    by (elim conjE)
  then obtain resp page_content extra where
    a: "on_goto ext (calls w @ before env body @ [navigation body]) = Inr (Some resp)"
    and b: "on_content ext (calls w @ before env body @ [navigation body] @ waiting body @ [Page_content])
            = Inr page_content"
    and c: "res = base_fields page_content (status resp) @ extra"
    and d: "if screenshot body \<or> screenshot_full_page body
            then \<exists>image.
                   on_screenshot ext
                     (calls w @ before env body @ [navigation body] @ waiting body
                        @ [Page_content, Page_screenshot (tmp_file ext) (screenshot_full_page body)])
                     = Inr image
                   \<and> files w' = (files w)(tmp_file ext \<mapsto> image)
                   \<and> extra = (if b64encode image \<noteq> []
                                then [(''screenshot'', JString (b64encode image))] else [])
            else files w' = files w \<and> extra = []"
    by (elim exE conjE)
  show thesis
  proof (rule that[OF a b c])
    assume "screenshot body \<or> screenshot_full_page body"
    with d show "\<exists>img. on_screenshot ext
                (calls w @ before env body @ [navigation body] @ waiting body
                   @ [Page_content, Page_screenshot (tmp_file ext) (screenshot_full_page body)])
                = Inr img
            \<and> files w' = (files w)(tmp_file ext \<mapsto> img)
            \<and> extra = (if b64encode img \<noteq> []
                        then [(''screenshot'', JString (b64encode img))] else [])"
      by (simp only: if_True)
  next
    assume "\<not> (screenshot body \<or> screenshot_full_page body)"
    with d show "files w' = files w \<and> extra = []"
      by (simp only: if_False)
  qed
qed

lemma root_screenshot:
  assumes run: "root env ext body w = (Inr res, w')"
  shows "if screenshot body \<or> screenshot_full_page body
         then \<exists>img.
                on_screenshot ext
                  (calls w @ before env body @ [navigation body] @ waiting body
                     @ [Page_content, Page_screenshot (tmp_file ext) (screenshot_full_page body)])
                  = Inr img
              \<and> files w' = (files w)(tmp_file ext \<mapsto> img)
              \<and> map_of res ''screenshot''
                  = (if img = [] then None else Some (JString (b64encode img)))
         else files w' = files w \<and> map_of res ''screenshot'' = None"
  using run
proof (cases rule: root_success_fields)
  case (1 resp page_content extra)
  show ?thesis
  proof (cases "screenshot body \<or> screenshot_full_page body")
    case True
    from 1(4)[OF True] obtain img where
      img: "on_screenshot ext
         (calls w @ before env body @ [navigation body] @ waiting body
            @ [Page_content, Page_screenshot (tmp_file ext) (screenshot_full_page body)])
         = Inr img"
      "files w' = (files w)(tmp_file ext \<mapsto> img)"
      "extra = (if b64encode img \<noteq> [] then [(''screenshot'', JString (b64encode img))] else [])"
      by (elim exE conjE)
    from img(3) have "map_of extra ''screenshot''
        = (if img = [] then None else Some (JString (b64encode img)))"
      by (simp add: b64encode_Nil_iff)
    then have "map_of res ''screenshot''
        = (if img = [] then None else Some (JString (b64encode img)))"
      unfolding 1(3) map_of_base_fields_screenshot .
    with img(1,2) have "\<exists>img.
                on_screenshot ext
                  (calls w @ before env body @ [navigation body] @ waiting body
                     @ [Page_content, Page_screenshot (tmp_file ext) (screenshot_full_page body)])
                  = Inr img
              \<and> files w' = (files w)(tmp_file ext \<mapsto> img)
              \<and> map_of res ''screenshot''
                  = (if img = [] then None else Some (JString (b64encode img)))"
      by (intro exI conjI)
    with True show ?thesis
      by (simp only: if_True)
  next
    case False
    from 1(5)[OF False] have "files w' = files w \<and> map_of res ''screenshot'' = None"
      unfolding 1(3) map_of_base_fields_screenshot by simp
    with False show ?thesis
      by (simp only: if_False)
  qed
qed


lemma root_with_screenshot:
  assumes "root env ext body w = (Inr res, w')" "screenshot body \<or> screenshot_full_page body"
  obtains img where
    "on_screenshot ext
       (calls w @ before env body @ [navigation body] @ waiting body
          @ [Page_content, Page_screenshot (tmp_file ext) (screenshot_full_page body)])
       = Inr img"
    "files w' = (files w)(tmp_file ext \<mapsto> img)"
    "map_of res ''screenshot'' = (if img = [] then None else Some (JString (b64encode img)))"
proof -
  from root_screenshot[OF assms(1)] assms(2) have
    "\<exists>img.
        on_screenshot ext
          (calls w @ before env body @ [navigation body] @ waiting body
             @ [Page_content, Page_screenshot (tmp_file ext) (screenshot_full_page body)])
          = Inr img
      \<and> files w' = (files w)(tmp_file ext \<mapsto> img)
      \<and> map_of res ''screenshot'' = (if img = [] then None else Some (JString (b64encode img)))"
    by (simp only: if_True)
  then show thesis
    by (elim exE conjE) (rule that)
qed

lemma root_without_screenshot:
  assumes "root env ext body w = (Inr res, w')" "\<not> (screenshot body \<or> screenshot_full_page body)"
  shows "files w' = files w \<and> map_of res ''screenshot'' = None"
  using root_screenshot[OF assms(1)] assms(2) by (simp only: if_False)

lemma sorted_script: "sorted_wrt (<) (map stage (script env ext body))"
  by (simp add: script_def before_def navigation_def after_def waiting_def capture_def)

lemma sorted_prefix:
  assumes "prefix xs ys" "sorted_wrt P (map f ys)"
  shows "sorted_wrt P (map f xs)"
proof -
  from assms(1) obtain zs where "ys = xs @ zs"
    by (auto simp: prefix_def)
  with assms(2) show ?thesis
    by (simp add: sorted_wrt_append)
qed

lemma prefix_reaches:
  assumes "prefix xs (ys @ c # zs)" "c \<in> set xs" "c \<notin> set ys"
  shows "\<exists>post. xs = ys @ c # post \<and> prefix post zs"
proof -
  from assms(1) consider "prefix xs ys" | us where "xs = ys @ us" "prefix us (c # zs)"
    by (auto simp: prefix_append)
  then show ?thesis
  proof cases
    case 1
    then have "set xs \<subseteq> set ys"
      by (rule set_mono_prefix)
    with assms(2,3) show ?thesis
      by blast
  next
    case 2
    with assms(2,3) have "us \<noteq> []"
      by auto
    with 2 show ?thesis
      by (auto simp: prefix_Cons)
  qed
qed

lemma wait_of_before: "ev \<in> set (before env body) \<Longrightarrow> wait_of ev = 0"
  by (auto simp: before_def split: if_splits)

lemma wait_of_capture: "ev \<in> set (capture ext body @ [Context_close]) \<Longrightarrow> wait_of ev = 0"
  by (auto simp: capture_def split: if_splits)

lemma total_wait_append: "total_wait (xs @ ys) = total_wait xs + total_wait ys"
  by (simp add: total_wait_def)

lemma total_wait_zero: "(\<And>ev. ev \<in> set evs \<Longrightarrow> wait_of ev = 0) \<Longrightarrow> total_wait evs = 0"
  by (induction evs) (simp_all add: total_wait_def)

lemma total_wait_waiting:
  "total_wait (waiting body) = (if wait_after_load body > 0 then wait_after_load body else 0)"
  by (simp add: waiting_def total_wait_def)

lemma content_not_earlier: "Page_content \<notin> set (before env body @ navigation body # waiting body)"
  by (auto simp: before_def navigation_def waiting_def)

lemma headers_last_before:
  "headers body = Some h \<Longrightarrow> h \<noteq> [] \<Longrightarrow>
     \<exists>pre. before env body = pre @ [Page_set_extra_http_headers h]"
  by (simp add: before_def)

lemma media_glob_tokens:
  "glob_tokens media_glob = [Any_dirs, Any_name, Literal CHR ''.'', One_of media_extensions]"
  by (simp add: media_glob_def media_extensions_def)


lemma upper_char_T: "upper_char c = CHR ''T'' \<longleftrightarrow> c = CHR ''t'' \<or> c = CHR ''T''"
  by (auto simp: upper_char_def split: if_splits)

lemma upper_char_R: "upper_char c = CHR ''R'' \<longleftrightarrow> c = CHR ''r'' \<or> c = CHR ''R''"
  by (auto simp: upper_char_def split: if_splits)

lemma upper_char_U: "upper_char c = CHR ''U'' \<longleftrightarrow> c = CHR ''u'' \<or> c = CHR ''U''"
  by (auto simp: upper_char_def split: if_splits)

lemma upper_char_E: "upper_char c = CHR ''E'' \<longleftrightarrow> c = CHR ''e'' \<or> c = CHR ''E''"
  by (auto simp: upper_char_def split: if_splits)

lemma lower_char_t: "lower_char c = CHR ''t'' \<longleftrightarrow> c = CHR ''t'' \<or> c = CHR ''T''"
  by (auto simp: lower_char_def split: if_splits)

lemma lower_char_r: "lower_char c = CHR ''r'' \<longleftrightarrow> c = CHR ''r'' \<or> c = CHR ''R''"
  by (auto simp: lower_char_def split: if_splits)

lemma lower_char_u: "lower_char c = CHR ''u'' \<longleftrightarrow> c = CHR ''u'' \<or> c = CHR ''U''"
  by (auto simp: lower_char_def split: if_splits)

lemma lower_char_e: "lower_char c = CHR ''e'' \<longleftrightarrow> c = CHR ''e'' \<or> c = CHR ''E''"
  by (auto simp: lower_char_def split: if_splits)

lemma upper_TRUE_iff: "upper s = ''TRUE'' \<longleftrightarrow> case_insensitive_equal s ''true''"
proof -
  have "upper s = ''TRUE'' \<longleftrightarrow>
      (\<exists>a b c d. s = [a, b, c, d] \<and> upper_char a = CHR ''T'' \<and> upper_char b = CHR ''R''
          \<and> upper_char c = CHR ''U'' \<and> upper_char d = CHR ''E'')"
    unfolding upper_def by (auto simp: map_eq_Cons_conv)
  also have "\<dots> \<longleftrightarrow>
      (\<exists>a b c d. s = [a, b, c, d] \<and> lower_char a = CHR ''t'' \<and> lower_char b = CHR ''r''
          \<and> lower_char c = CHR ''u'' \<and> lower_char d = CHR ''e'')"
    unfolding upper_char_T upper_char_R upper_char_U upper_char_E
      lower_char_t lower_char_r lower_char_u lower_char_e ..
  also have "\<dots> \<longleftrightarrow> map lower_char s = ''true''"
    by (auto simp: map_eq_Cons_conv)
  also have "\<dots> \<longleftrightarrow> case_insensitive_equal s ''true''"
    by (simp add: case_insensitive_equal_def lower_char_def)
  finally show ?thesis .
qed

lemma BLOCK_MEDIA_iff:
  "BLOCK_MEDIA env \<longleftrightarrow> (\<exists>s. env ''BLOCK_MEDIA'' = Some s \<and> case_insensitive_equal s ''true'')"
proof (cases "env ''BLOCK_MEDIA''")
  case None
  then show ?thesis
    by (simp add: BLOCK_MEDIA_def upper_def upper_char_def)
next
  case (Some s)
  then show ?thesis
    by (simp add: BLOCK_MEDIA_def upper_TRUE_iff)
qed


lemma split_at:
  "(\<exists>n \<in> {..length s}. P (take n s) (drop n s)) \<longleftrightarrow> (\<exists>p q. s = p @ q \<and> P p q)"
proof
  assume "\<exists>n \<in> {..length s}. P (take n s) (drop n s)"
  then obtain n where "P (take n s) (drop n s)"
    by blast
  moreover have "s = take n s @ drop n s"
    by simp
  ultimately show "\<exists>p q. s = p @ q \<and> P p q"
    by blast
next
  assume "\<exists>p q. s = p @ q \<and> P p q"
  then obtain p q where "s = p @ q" "P p q"
    by blast
  then have "length p \<in> {..length s}" "P (take (length p) s) (drop (length p) s)"
    by simp_all
  then show "\<exists>n \<in> {..length s}. P (take n s) (drop n s)"
    by blast
qed

lemma matches_extension:
  "matches [Literal c, One_of alts] s \<longleftrightarrow> (\<exists>a \<in> set alts. s = c # a)"
proof (cases s)
  case Nil
  then show ?thesis by simp
next
  case (Cons x xs)
  have "prefix a xs \<and> drop (length a) xs = [] \<longleftrightarrow> xs = a" for a
    by (auto simp: prefix_def)
  with Cons show ?thesis
    by auto
qed

lemma matches_any_name:
  "matches (Any_name # ts) s \<longleftrightarrow> (\<exists>p q. s = p @ q \<and> CHR ''/'' \<notin> set p \<and> matches ts q)"
  using split_at[of s "\<lambda>p q. CHR ''/'' \<notin> set p \<and> matches ts q"] by simp

lemma matches_any_dirs:
  "matches (Any_dirs # ts) s \<longleftrightarrow>
     (\<exists>p q. s = p @ q \<and> (p = [] \<or> last p = CHR ''/'' \<or> q = []) \<and> matches ts q)"
  using split_at[of s "\<lambda>p q. (p = [] \<or> last p = CHR ''/'' \<or> q = []) \<and> matches ts q"] by simp

lemma split_last_slash:
  "\<exists>p q. pre = p @ q \<and> (p = [] \<or> last p = CHR ''/'') \<and> CHR ''/'' \<notin> set q"
proof -
  let ?q = "rev (takeWhile (\<lambda>x. x \<noteq> CHR ''/'') (rev pre))"
  let ?d = "dropWhile (\<lambda>x. x \<noteq> CHR ''/'') (rev pre)"
  have "rev pre = takeWhile (\<lambda>x. x \<noteq> CHR ''/'') (rev pre) @ ?d"
    by simp
  then have "rev (rev pre) = rev ?d @ ?q"
    by (metis rev_append)
  then have "pre = rev ?d @ ?q"
    by simp
  moreover have "CHR ''/'' \<notin> set ?q"
    by (auto dest: set_takeWhileD)
  moreover have "rev ?d = [] \<or> last (rev ?d) = CHR ''/''"
  proof (cases "?d = []")
    case True
    then show ?thesis by simp
  next
    case False
    then have "last (rev ?d) = hd ?d"
      by (simp add: last_rev)
    moreover from False have "hd ?d = CHR ''/''"
      using hd_dropWhile[of "\<lambda>x. x \<noteq> CHR ''/''" "rev pre"] by simp
    ultimately show ?thesis by simp
  qed
  ultimately show ?thesis
    by blast
qed

lemma matches_media:
  "matches [Any_dirs, Any_name, Literal c, One_of alts] s \<longleftrightarrow> (\<exists>a \<in> set alts. suffix (c # a) s)"
proof
  assume "matches [Any_dirs, Any_name, Literal c, One_of alts] s"
  then obtain p q p' q' a where "s = p @ q" "q = p' @ q'" "a \<in> set alts" "q' = c # a"
    unfolding matches_any_dirs matches_any_name matches_extension by blast
  then have "s = (p @ p') @ c # a"
    by simp
  then have "suffix (c # a) s"
    by (rule suffixI)
  with \<open>a \<in> set alts\<close> show "\<exists>a \<in> set alts. suffix (c # a) s"
    by blast
next
  assume "\<exists>a \<in> set alts. suffix (c # a) s"
  then obtain a pre where a: "a \<in> set alts" "s = pre @ c # a"
    by (auto simp: suffix_def)
  from split_last_slash[of pre] obtain p q where
    pq: "pre = p @ q" "p = [] \<or> last p = CHR ''/''" "CHR ''/'' \<notin> set q"
    by blast
  from a(1) pq(3) have "matches [Any_name, Literal c, One_of alts] (q @ c # a)"
    unfolding matches_any_name matches_extension by blast
  moreover have "s = p @ (q @ c # a)"
    using a(2) pq(1) by simp
  ultimately show "matches [Any_dirs, Any_name, Literal c, One_of alts] s"
    unfolding matches_any_dirs[of "[Any_name, Literal c, One_of alts]"] using pq(2) by blast
qed

lemma url_matches_media_glob:
  "url_matches media_glob u \<longleftrightarrow> (\<exists>x \<in> set media_extensions. suffix (CHR ''.'' # x) u)"
  unfolding url_matches_def media_glob_tokens by (rule matches_media)

lemma routed_append:
  "routed (xs @ ys) u = (case routed ys u of Some d \<Rightarrow> Some d | None \<Rightarrow> routed xs u)"
  by (induction xs) (simp_all split: option.splits)

lemma routed_none:
  assumes "\<And>ev. ev \<in> set evs \<Longrightarrow> stage ev \<noteq> 1"
  shows "routed evs u = None"
  using assms
proof (induction evs)
  case Nil
  then show ?case by simp
next
  case (Cons ev evs)
  from Cons.prems have "stage ev \<noteq> 1"
    by simp
  then have "(case ev of Context_route glob d \<Rightarrow> if url_matches glob u then Some d else None
               | _ \<Rightarrow> None) = None"
    by (cases ev) simp_all
  with Cons show ?case
    by simp
qed

lemma script_up_to_page:
  "\<exists>tail. script env ext body
       = (Browser_new_context (context_proxy env)
            # (if BLOCK_MEDIA env then [Context_route media_glob Abort] else []))
         @ Context_new_page # tail
     \<and> (\<forall>ev \<in> set tail. stage ev \<noteq> 1)"
  by (auto simp: script_def before_def navigation_def after_def waiting_def capture_def)

lemma page_not_earlier:
  "Context_new_page \<notin> set (Browser_new_context p
      # (if b then [Context_route media_glob Abort] else []))"
  by simp

lemma root_up_to_page:
  assumes run: "root env ext body w = (r, w')"
    and page: "Context_new_page \<in> set (calls_made (root env ext body) w)"
  shows "\<exists>post. calls_made (root env ext body) w
       = (Browser_new_context (context_proxy env)
            # (if BLOCK_MEDIA env then [Context_route media_glob Abort] else []))
         @ Context_new_page # post
     \<and> (\<forall>ev \<in> set post. stage ev \<noteq> 1)"
proof -
  from root_trace[OF run] obtain evs where
    evs: "calls w' = calls w @ evs" "prefix evs (script env ext body)"
    by blast
  have made: "calls_made (root env ext body) w = evs"
    using run evs(1) by (rule calls_made_eq)
  from script_up_to_page obtain tail where
    tail: "script env ext body
       = (Browser_new_context (context_proxy env)
            # (if BLOCK_MEDIA env then [Context_route media_glob Abort] else []))
         @ Context_new_page # tail"
      "\<forall>ev \<in> set tail. stage ev \<noteq> 1"
    by blast
  from evs(2) have "prefix evs ((Browser_new_context (context_proxy env)
            # (if BLOCK_MEDIA env then [Context_route media_glob Abort] else []))
         @ Context_new_page # tail)"
    unfolding tail(1) .
  from prefix_reaches[OF this page[unfolded made] page_not_earlier] obtain post where
    post: "evs = (Browser_new_context (context_proxy env)
            # (if BLOCK_MEDIA env then [Context_route media_glob Abort] else []))
         @ Context_new_page # post" "prefix post tail"
    by blast
  from post(2) have "set post \<subseteq> set tail"
    by (rule set_mono_prefix)
  with tail(2) have "\<forall>ev \<in> set post. stage ev \<noteq> 1"
    by blast
  with post(1) show ?thesis
    unfolding made by blast
qed

lemma root_intercept:
  assumes run: "root env ext body w = (r, w')"
    and page: "Context_new_page \<in> set (calls_made (root env ext body) w)"
  shows "intercept (calls_made (root env ext body) w) u = Abort \<longleftrightarrow>
      BLOCK_MEDIA env \<and> (\<exists>x \<in> set media_extensions. suffix (CHR ''.'' # x) u)"
proof -
  from root_up_to_page[OF run page] obtain post where
    made: "calls_made (root env ext body) w
       = (Browser_new_context (context_proxy env)
            # (if BLOCK_MEDIA env then [Context_route media_glob Abort] else []))
         @ Context_new_page # post"
    and post: "\<forall>ev \<in> set post. stage ev \<noteq> 1"
    by blast
  from post have "routed (Context_new_page # post) u = None"
    by (intro routed_none) auto
  then have "routed (calls_made (root env ext body) w) u
      = (if BLOCK_MEDIA env \<and> url_matches media_glob u then Some Abort else None)"
    unfolding made routed_append by simp
  then show ?thesis
    unfolding intercept_def url_matches_media_glob by simp
qed

lemma not_Abort: "d \<noteq> Abort \<longleftrightarrow> d = Continue"
  by (cases d) simp_all

section \<open>Claims\<close>

text \<open>
  C9. A request with a negative \<open>wait_after_load\<close> is accepted: the handler does exactly
  what it does for \<open>wait_after_load = 0\<close> (same response or exception, same final state),
  and it makes no \<open>wait_for_timeout\<close> call. The record \<open>UrlModel\<close> puts no bound on the
  field, as the class of lines 24 to 31 puts none.
\<close>

theorem negative_wait_is_no_wait:
  assumes "n < 0"
  shows "root env ext (body\<lparr>wait_after_load := n\<rparr>) w = root env ext (body\<lparr>wait_after_load := 0\<rparr>) w
       \<and> (\<forall>t. Page_wait_for_timeout t \<notin> set (calls_made (root env ext (body\<lparr>wait_after_load := n\<rparr>)) w))"
proof
  show "root env ext (body\<lparr>wait_after_load := n\<rparr>) w = root env ext (body\<lparr>wait_after_load := 0\<rparr>) w"
    using assms by (simp add: root_def Let_def)
next
  let ?b = "body\<lparr>wait_after_load := n\<rparr>"
  obtain r w' where run: "root env ext ?b w = (r, w')"
    by (cases "root env ext ?b w")
  from root_trace[OF run] obtain evs where
    evs: "calls w' = calls w @ evs" "prefix evs (script env ext ?b)"
    by blast
  have made: "calls_made (root env ext ?b) w = evs"
    using run evs(1) by (rule calls_made_eq)
  show "\<forall>t. Page_wait_for_timeout t \<notin> set (calls_made (root env ext ?b) w)"
  proof
    fix t
    have "Page_wait_for_timeout t \<notin> set (script env ext ?b)"
      using assms by (intro script_no_wait) simp
    with set_mono_prefix[OF evs(2)] show "Page_wait_for_timeout t \<notin> set (calls_made (root env ext ?b) w)"
      unfolding made by blast
  qed
qed

theorem negative_wait_is_no_wait_witness:
  "(- 7 :: int) < 0
   \<and> root Map.empty (serving 200) (plain_request\<lparr>wait_after_load := - 7\<rparr>) idle
       = root Map.empty (serving 200) (plain_request\<lparr>wait_after_load := 0\<rparr>) idle
   \<and> fst (root Map.empty (serving 200) (plain_request\<lparr>wait_after_load := 0\<rparr>) idle)
       = Inr [(''content'', JString ''<html>ok</html>''), (''pageStatusCode'', JInt 200),
              (''pageError'', JNull)]"
proof -
  have neg: "(- 7 :: int) < 0" by simp
  have run: "fst (root Map.empty (serving 200) (plain_request\<lparr>wait_after_load := 0\<rparr>) idle)
       = Inr [(''content'', JString ''<html>ok</html>''), (''pageStatusCode'', JInt 200),
              (''pageError'', JNull)]"
    by code_simp
  from negative_wait_is_no_wait[OF neg, of Map.empty "serving 200" plain_request idle] neg run
  show ?thesis by simp
qed

text \<open>
  C8. When the navigation call raises, the request fails with that exception: the handler
  returns no response at all (so no partial one), the navigation is its last call (no
  content is read, no screenshot taken), and no request makes the navigation call more
  than once (there is no retry). If an earlier call already raised, the request fails as
  well.
\<close>

theorem navigation_failure_propagates:
  assumes fails: "on_goto ext (calls w @ before env body @ [navigation body]) = Inl e"
    and run: "root env ext body w = (r, w')"
  shows "(\<exists>e'. r = Inl e')
       \<and> (navigation body \<in> set (calls_made (root env ext body) w) \<longrightarrow>
            r = Inl e
          \<and> calls_made (root env ext body) w = before env body @ [navigation body])
       \<and> length (filter (\<lambda>ev. stage ev = 4) (calls_made (root env ext body) w)) \<le> 1"
  using run
proof (cases rule: root_at_goto)
  case (early e' evs)
  have made: "calls_made (root env ext body) w = evs"
    using run early(2) by (rule calls_made_eq)
  have "set evs \<subseteq> set (before env body)"
    using early(4) by (rule set_mono_prefix)
  then have "\<forall>ev \<in> set evs. stage ev < 4"
    using stage_before by blast
  then have "navigation body \<notin> set evs" "filter (\<lambda>ev. stage ev = 4) evs = []"
    by (auto simp: stage_navigation filter_empty_conv)
  with early(1) show ?thesis
    unfolding made by simp
next
  case (raised e')
  have made: "calls_made (root env ext body) w = before env body @ [navigation body]"
    using run raised(3) by (rule calls_made_eq)
  have "filter (\<lambda>ev. stage ev = 4) (before env body) = []"
    by (auto simp: filter_empty_conv dest: stage_before)
  with raised fails show ?thesis
    unfolding made by (simp add: stage_navigation)
next
  case none
  with fails show ?thesis by simp
next
  case (some resp w2)
  with fails show ?thesis by simp
qed

theorem navigation_failure_propagates_witness:
  "on_goto unreachable (calls idle @ before Map.empty plain_request @ [navigation plain_request])
     = Inl (PlaywrightError ''Timeout 100ms exceeded'')
   \<and> fst (root Map.empty unreachable plain_request idle)
       = Inl (PlaywrightError ''Timeout 100ms exceeded'')
   \<and> calls_made (root Map.empty unreachable plain_request) idle
       = [Browser_new_context None, Context_new_page,
          Page_goto ''https://example.com'' ''load'' 5000]"
proof -
  have fails: "on_goto unreachable (calls idle @ before Map.empty plain_request @ [navigation plain_request])
     = Inl (PlaywrightError ''Timeout 100ms exceeded'')"
    by (simp add: unreachable_def)
  have made: "calls_made (root Map.empty unreachable plain_request) idle
       = [Browser_new_context None, Context_new_page,
          Page_goto ''https://example.com'' ''load'' 5000]"
    by code_simp
  have run: "root Map.empty unreachable plain_request idle
    = (fst (root Map.empty unreachable plain_request idle), snd (root Map.empty unreachable plain_request idle))"
    by simp
  from navigation_failure_propagates[OF fails run] fails made show ?thesis
    by (simp add: navigation_def plain_request_def)
qed

text \<open>
  C10. When the navigation returns no response object, reading \<open>response.status\<close> at line
  101 raises: the request ends with the \<open>AttributeError\<close> right after the navigation call,
  and no response is produced. Conversely, a request returns a response only if the
  navigation yielded a response object, whose status is the \<open>pageStatusCode\<close> returned.
\<close>

theorem missing_response_raises:
  assumes run: "root env ext body w = (r, w')"
  shows "(on_goto ext (calls w @ before env body @ [navigation body]) = Inr None \<longrightarrow>
            (\<exists>e. r = Inl e)
          \<and> (navigation body \<in> set (calls_made (root env ext body) w) \<longrightarrow>
               r = Inl (AttributeError ''status'')
             \<and> calls_made (root env ext body) w = before env body @ [navigation body]))
       \<and> (\<forall>res. r = Inr res \<longrightarrow>
            (\<exists>resp. on_goto ext (calls w @ before env body @ [navigation body]) = Inr (Some resp)
                  \<and> map_of res ''pageStatusCode'' = Some (JInt (status resp))))"
  using run
proof (cases rule: root_at_goto)
  case (early e' evs)
  have made: "calls_made (root env ext body) w = evs"
    using run early(2) by (rule calls_made_eq)
  have "set evs \<subseteq> set (before env body)"
    using early(4) by (rule set_mono_prefix)
  with navigation_not_before[of body env] have "navigation body \<notin> set evs"
    by blast
  with early(1) show ?thesis
    unfolding made by simp
next
  case (raised e')
  then show ?thesis by simp
next
  case none
  have made: "calls_made (root env ext body) w = before env body @ [navigation body]"
    using run none(3) by (rule calls_made_eq)
  from none show ?thesis
    unfolding made by simp
next
  case (some resp w2)
  show ?thesis
  proof (cases r)
    case (Inl e')
    with some(1) show ?thesis by simp
  next
    case (Inr res)
    with run have "root env ext body w = (Inr res, w')" by simp
    from root_success[OF this] obtain resp' page_content extra where
      "on_goto ext (calls w @ before env body @ [navigation body]) = Inr (Some resp')"
      "res = base_fields page_content (status resp') @ extra"
      by blast
    with some(1) Inr show ?thesis
      by (simp add: base_fields_def)
  qed
qed

theorem missing_response_raises_witness:
  "on_goto responseless (calls idle @ before Map.empty plain_request @ [navigation plain_request])
     = Inr None
   \<and> fst (root Map.empty responseless plain_request idle) = Inl (AttributeError ''status'')
   \<and> calls_made (root Map.empty responseless plain_request) idle
       = [Browser_new_context None, Context_new_page,
          Page_goto ''https://example.com'' ''load'' 5000]
   \<and> map_of (projr (fst (root Map.empty (serving 503) plain_request idle))) ''pageStatusCode''
       = Some (JInt 503)"
proof -
  have silent: "on_goto responseless (calls idle @ before Map.empty plain_request @ [navigation plain_request])
     = Inr None"
    by (simp add: responseless_def)
  have made: "calls_made (root Map.empty responseless plain_request) idle
       = [Browser_new_context None, Context_new_page,
          Page_goto ''https://example.com'' ''load'' 5000]"
    by code_simp
  have run: "root Map.empty responseless plain_request idle
    = (fst (root Map.empty responseless plain_request idle),
       snd (root Map.empty responseless plain_request idle))"
    by simp
  have "isl (fst (root Map.empty (serving 503) plain_request idle)) = False"
    by code_simp
  then have served: "root Map.empty (serving 503) plain_request idle
      = (Inr (projr (fst (root Map.empty (serving 503) plain_request idle))),
         snd (root Map.empty (serving 503) plain_request idle))"
    by (metis prod.collapse sum.collapse(2))
  have goto: "on_goto (serving 503) h = Inr (Some \<lparr>status = 503\<rparr>)" for h
    by (simp add: serving_def)
  from missing_response_raises[OF served] goto
  have "map_of (projr (fst (root Map.empty (serving 503) plain_request idle))) ''pageStatusCode''
       = Some (JInt 503)"
    by auto
  with missing_response_raises[OF run] silent made show ?thesis
    by (simp add: navigation_def plain_request_def)
qed

text \<open>
  C1, as the source has it. Every request makes exactly one \<open>new_context\<close> call and at most
  one \<open>close\<close> call. A request that returns a response has made the \<open>close\<close> call, as its
  last call, and leaves the number of open contexts as it found it. A request that
  raises anywhere before \<open>close\<close> makes no \<open>close\<close> call; if it got past \<open>new_context\<close>, its
  context stays open. The handler has no \<open>try\<close>/\<open>finally\<close> and no \<open>async with\<close>: line 116 is
  reached only when every statement before it has returned.
\<close>

theorem context_closed_on_success_only:
  assumes run: "root env ext body w = (r, w')"
  shows "opened (calls_made (root env ext body) w) = 1
       \<and> closed (calls_made (root env ext body) w) \<le> 1
       \<and> (\<forall>res. r = Inr res \<longrightarrow>
             closed (calls_made (root env ext body) w) = 1
           \<and> last (calls_made (root env ext body) w) = Context_close
           \<and> contexts w' = contexts w)
       \<and> (\<forall>e. r = Inl e \<longrightarrow> last (calls_made (root env ext body) w) \<noteq> Context_close \<longrightarrow>
             closed (calls_made (root env ext body) w) = 0
           \<and> (2 \<le> length (calls_made (root env ext body) w) \<longrightarrow> contexts w' = Suc (contexts w)))"
proof -
  from root_trace[OF run] obtain evs where
    evs: "calls w' = calls w @ evs" "evs \<noteq> []" "prefix evs (script env ext body)"
    by blast
  have made: "calls_made (root env ext body) w = evs"
    using run evs(1) by (rule calls_made_eq)
  note shape = prefix_of_script[OF evs(3) evs(2)]
  have success: "closed evs = 1 \<and> last evs = Context_close \<and> contexts w' = contexts w"
    if "r = Inr res" for res
  proof -
    from run that have "root env ext body w = (Inr res, w')" by simp
    from root_success[OF this] evs(1) have "evs = script env ext body" "contexts w' = contexts w"
      by auto
    with shape show ?thesis by simp
  qed
  have failure: "closed evs = 0 \<and> (2 \<le> length evs \<longrightarrow> contexts w' = Suc (contexts w))"
    if "r = Inl e" "last evs \<noteq> Context_close" for e
  proof -
    from run that(1) have "root env ext body w = (Inl e, w')" by simp
    from root_failure_contexts[OF this evs(1)] shape that(2) show ?thesis
      by (auto split: if_splits)
  qed
  from shape have "opened evs = 1" "closed evs \<le> 1"
    by (auto split: if_splits)
  with success failure show ?thesis
    unfolding made by blast
qed

theorem context_closed_on_success_only_witness:
  "opened (calls_made (root Map.empty (serving 200) plain_request) idle) = 1
   \<and> closed (calls_made (root Map.empty (serving 200) plain_request) idle) = 1
   \<and> last (calls_made (root Map.empty (serving 200) plain_request) idle) = Context_close
   \<and> contexts (snd (root Map.empty (serving 200) plain_request idle)) = contexts idle
   \<and> closed (calls_made (root Map.empty unreachable plain_request) idle) = 0
   \<and> contexts (snd (root Map.empty unreachable plain_request idle)) = Suc (contexts idle)"
proof -
  have run: "root Map.empty (serving 200) plain_request idle
    = (Inr [(''content'', JString ''<html>ok</html>''), (''pageStatusCode'', JInt 200),
            (''pageError'', JNull)],
       snd (root Map.empty (serving 200) plain_request idle))"
  proof -
    have "fst (root Map.empty (serving 200) plain_request idle)
      = Inr [(''content'', JString ''<html>ok</html>''), (''pageStatusCode'', JInt 200),
            (''pageError'', JNull)]"
      by code_simp
    then show ?thesis
      by (metis prod.collapse)
  qed
  have fail: "root Map.empty unreachable plain_request idle
    = (Inl (PlaywrightError ''Timeout 100ms exceeded''),
       snd (root Map.empty unreachable plain_request idle))"
  proof -
    have "fst (root Map.empty unreachable plain_request idle)
      = Inl (PlaywrightError ''Timeout 100ms exceeded'')"
      by code_simp
    then show ?thesis
      by (metis prod.collapse)
  qed
  have made: "calls_made (root Map.empty unreachable plain_request) idle
       = [Browser_new_context None, Context_new_page,
          Page_goto ''https://example.com'' ''load'' 5000]"
    by code_simp
  from context_closed_on_success_only[OF fail] made
  have "closed (calls_made (root Map.empty unreachable plain_request) idle) = 0
      \<and> contexts (snd (root Map.empty unreachable plain_request idle)) = Suc (contexts idle)"
    by simp
  with context_closed_on_success_only[OF run] show ?thesis
    by simp
qed

text \<open>
  C1 as stated fails when the navigation times out: one context has been opened, no
  \<open>close\<close> call is made, and the context is still open when the request has failed.
\<close>

theorem context_left_open_counterexample:
  "fst (root Map.empty unreachable plain_request idle)
     = Inl (PlaywrightError ''Timeout 100ms exceeded'')
   \<and> opened (calls_made (root Map.empty unreachable plain_request) idle) = 1
   \<and> closed (calls_made (root Map.empty unreachable plain_request) idle) = 0
   \<and> contexts (snd (root Map.empty unreachable plain_request idle)) = 1"
  by code_simp

text \<open>
  C3. The first call of every request is \<open>browser.new_context\<close>, and its \<open>proxy\<close> argument
  is given exactly when \<open>PROXY_SERVER\<close>, \<open>PROXY_USERNAME\<close> and \<open>PROXY_PASSWORD\<close> are all set
  and non-empty; it then holds these three values. Otherwise the context is created with
  no proxy, and the request runs exactly as it does when none of the three variables is
  set: same calls, same response or exception, so nothing is raised on account of a
  partial configuration.
\<close>

theorem proxy_all_or_nothing:
  assumes run: "root env ext body w = (r, w')"
  shows "(\<exists>tail. calls_made (root env ext body) w = Browser_new_context (context_proxy env) # tail)
       \<and> (context_proxy env \<noteq> None \<longleftrightarrow>
            (\<exists>s u p. env ''PROXY_SERVER'' = Some s \<and> s \<noteq> []
                   \<and> env ''PROXY_USERNAME'' = Some u \<and> u \<noteq> []
                   \<and> env ''PROXY_PASSWORD'' = Some p \<and> p \<noteq> []))
       \<and> (\<forall>s u p. env ''PROXY_SERVER'' = Some s \<and> s \<noteq> []
                   \<and> env ''PROXY_USERNAME'' = Some u \<and> u \<noteq> []
                   \<and> env ''PROXY_PASSWORD'' = Some p \<and> p \<noteq> [] \<longrightarrow>
             context_proxy env = Some \<lparr>server = s, username = u, password = p\<rparr>)
       \<and> (context_proxy env = None \<longrightarrow>
             root env ext body w
               = root (env(''PROXY_SERVER'' := None, ''PROXY_USERNAME'' := None,
                           ''PROXY_PASSWORD'' := None)) ext body w)"
proof (intro conjI)
  show "\<exists>tail. calls_made (root env ext body) w = Browser_new_context (context_proxy env) # tail"
    using run by (rule root_first_call)
next
  show "context_proxy env \<noteq> None \<longleftrightarrow>
            (\<exists>s u p. env ''PROXY_SERVER'' = Some s \<and> s \<noteq> []
                   \<and> env ''PROXY_USERNAME'' = Some u \<and> u \<noteq> []
                   \<and> env ''PROXY_PASSWORD'' = Some p \<and> p \<noteq> [])"
    by (cases "env ''PROXY_SERVER''"; cases "env ''PROXY_USERNAME''"; cases "env ''PROXY_PASSWORD''")
       (simp_all add: context_proxy_def PROXY_SERVER_def PROXY_USERNAME_def PROXY_PASSWORD_def)
next
  show "\<forall>s u p. env ''PROXY_SERVER'' = Some s \<and> s \<noteq> []
                   \<and> env ''PROXY_USERNAME'' = Some u \<and> u \<noteq> []
                   \<and> env ''PROXY_PASSWORD'' = Some p \<and> p \<noteq> [] \<longrightarrow>
             context_proxy env = Some \<lparr>server = s, username = u, password = p\<rparr>"
    by (simp add: context_proxy_def PROXY_SERVER_def PROXY_USERNAME_def PROXY_PASSWORD_def)
next
  show "context_proxy env = None \<longrightarrow>
             root env ext body w
               = root (env(''PROXY_SERVER'' := None, ''PROXY_USERNAME'' := None,
                           ''PROXY_PASSWORD'' := None)) ext body w"
    by (simp add: root_def context_proxy_def PROXY_SERVER_def PROXY_USERNAME_def
        PROXY_PASSWORD_def BLOCK_MEDIA_def split: if_splits)
qed

theorem proxy_all_or_nothing_witness:
  "context_proxy partial_proxy = None
   \<and> calls_made (root partial_proxy (serving 200) plain_request) idle
       = [Browser_new_context None, Context_new_page,
          Page_goto ''https://example.com'' ''load'' 5000, Page_content, Context_close]
   \<and> root partial_proxy (serving 200) plain_request idle
       = root (partial_proxy(''PROXY_SERVER'' := None, ''PROXY_USERNAME'' := None,
                 ''PROXY_PASSWORD'' := None)) (serving 200) plain_request idle
   \<and> fst (root partial_proxy (serving 200) plain_request idle)
       = Inr [(''content'', JString ''<html>ok</html>''), (''pageStatusCode'', JInt 200),
              (''pageError'', JNull)]
   \<and> context_proxy full_proxy
       = Some \<lparr>server = ''http://proxy:8080'', username = ''user'', password = ''secret''\<rparr>"
proof -
  have none: "context_proxy partial_proxy = None"
    by code_simp
  have made: "calls_made (root partial_proxy (serving 200) plain_request) idle
       = [Browser_new_context None, Context_new_page,
          Page_goto ''https://example.com'' ''load'' 5000, Page_content, Context_close]"
    by code_simp
  have res: "fst (root partial_proxy (serving 200) plain_request idle)
       = Inr [(''content'', JString ''<html>ok</html>''), (''pageStatusCode'', JInt 200),
              (''pageError'', JNull)]"
    by code_simp
  have set3: "full_proxy ''PROXY_SERVER'' = Some ''http://proxy:8080''
      \<and> ''http://proxy:8080'' \<noteq> []
      \<and> full_proxy ''PROXY_USERNAME'' = Some ''user'' \<and> ''user'' \<noteq> []
      \<and> full_proxy ''PROXY_PASSWORD'' = Some ''secret'' \<and> ''secret'' \<noteq> []"
    by (simp add: full_proxy_def partial_proxy_def)
  have run1: "root partial_proxy (serving 200) plain_request idle
    = (fst (root partial_proxy (serving 200) plain_request idle),
       snd (root partial_proxy (serving 200) plain_request idle))"
    by simp
  have run2: "root full_proxy (serving 200) plain_request idle
    = (fst (root full_proxy (serving 200) plain_request idle),
       snd (root full_proxy (serving 200) plain_request idle))"
    by simp
  from proxy_all_or_nothing[OF run1] none
  have same: "root partial_proxy (serving 200) plain_request idle
       = root (partial_proxy(''PROXY_SERVER'' := None, ''PROXY_USERNAME'' := None,
                 ''PROXY_PASSWORD'' := None)) (serving 200) plain_request idle"
    by blast
  from proxy_all_or_nothing[OF run2] set3
  have "context_proxy full_proxy
       = Some \<lparr>server = ''http://proxy:8080'', username = ''user'', password = ''secret''\<rparr>"
    by blast
  with none made res same show ?thesis
    by blast
qed

text \<open>
  C2. \<open>get_error\<close> is modelled from the specification. In the response of every request
  that returns one, \<open>pageStatusCode\<close> is the status of the navigation's response and
  \<open>pageError\<close> is \<open>get_error\<close> of it: the key is always there, with \<open>null\<close> for an unset
  error. So the error is a string exactly when the status is outside 200 to 399; it is
  the table's string for each code of the table, unset for every 2xx and 3xx code, and
  the generic text with the code in decimal for every other code.
\<close>

theorem page_error_classifies_status:
  assumes run: "root env ext body w = (Inr res, w')"
  shows "\<exists>resp. on_goto ext (calls w @ before env body @ [navigation body]) = Inr (Some resp)
       \<and> map_of res ''pageStatusCode'' = Some (JInt (status resp))
       \<and> map_of res ''pageError'' = Some (json_of_optional (get_error (status resp)))
       \<and> (field ''pageError'' res \<noteq> None \<longleftrightarrow> \<not> (200 \<le> status resp \<and> status resp < 400))
       \<and> (\<forall>msg. (status resp, msg) \<in> set error_table \<longrightarrow> field ''pageError'' res = Some msg)
       \<and> (200 \<le> status resp \<and> status resp < 400 \<longrightarrow> field ''pageError'' res = None)
       \<and> (\<not> (200 \<le> status resp \<and> status resp < 400) \<and> status resp \<notin> fst ` set error_table \<longrightarrow>
            field ''pageError'' res
              = Some (''Unknown Error (status '' @ str_int (status resp) @ '')''))"
proof -
  from root_status_fields[OF run] obtain resp where
    resp: "on_goto ext (calls w @ before env body @ [navigation body]) = Inr (Some resp)"
      "map_of res ''pageStatusCode'' = Some (JInt (status resp))"
      "map_of res ''pageError'' = Some (json_of_optional (get_error (status resp)))"
    by blast
  from resp(3) have f: "field ''pageError'' res = get_error (status resp)"
    by (rule field_json_of_optional)
  have "field ''pageError'' res \<noteq> None \<longleftrightarrow> \<not> (200 \<le> status resp \<and> status resp < 400)"
    unfolding f using get_error_None_iff[of "status resp"] by simp
  moreover have "\<forall>msg. (status resp, msg) \<in> set error_table \<longrightarrow> field ''pageError'' res = Some msg"
    unfolding f by (simp add: get_error_table)
  moreover have "200 \<le> status resp \<and> status resp < 400 \<longrightarrow> field ''pageError'' res = None"
    unfolding f by (simp add: get_error_None_iff)
  moreover have "\<not> (200 \<le> status resp \<and> status resp < 400) \<and> status resp \<notin> fst ` set error_table \<longrightarrow>
            field ''pageError'' res
              = Some (''Unknown Error (status '' @ str_int (status resp) @ '')'')"
    unfolding f by (simp add: get_error_fallback)
  ultimately show ?thesis
    using resp by blast
qed

theorem page_error_classifies_status_witness:
  "field ''pageError'' (projr (fst (root Map.empty (serving 404) plain_request idle))) = Some ''Not Found''
   \<and> field ''pageError'' (projr (fst (root Map.empty (serving 301) plain_request idle))) = None
   \<and> field ''pageError'' (projr (fst (root Map.empty (serving 418) plain_request idle)))
       = Some ''Unknown Error (status 418)''"
proof -
  have r404: "root Map.empty (serving 404) plain_request idle
      = (Inr (projr (fst (root Map.empty (serving 404) plain_request idle))),
         snd (root Map.empty (serving 404) plain_request idle))"
  proof -
    have "isl (fst (root Map.empty (serving 404) plain_request idle)) = False" by code_simp
    then show ?thesis by (metis prod.collapse sum.collapse(2))
  qed
  have r301: "root Map.empty (serving 301) plain_request idle
      = (Inr (projr (fst (root Map.empty (serving 301) plain_request idle))),
         snd (root Map.empty (serving 301) plain_request idle))"
  proof -
    have "isl (fst (root Map.empty (serving 301) plain_request idle)) = False" by code_simp
    then show ?thesis by (metis prod.collapse sum.collapse(2))
  qed
  have r418: "root Map.empty (serving 418) plain_request idle
      = (Inr (projr (fst (root Map.empty (serving 418) plain_request idle))),
         snd (root Map.empty (serving 418) plain_request idle))"
  proof -
    have "isl (fst (root Map.empty (serving 418) plain_request idle)) = False" by code_simp
    then show ?thesis by (metis prod.collapse sum.collapse(2))
  qed
  have goto: "on_goto (serving c) h = Inr (Some \<lparr>status = c\<rparr>)" for c h
    by (simp add: serving_def)
  have t: "(404, ''Not Found'') \<in> set error_table" "(418::int) \<notin> fst ` set error_table"
    by (simp_all add: error_table_def)
  have s: "str_int 418 = ''418''"
    by code_simp
  from page_error_classifies_status[OF r404] goto[of 404] t(1)
  have a: "field ''pageError'' (projr (fst (root Map.empty (serving 404) plain_request idle))) = Some ''Not Found''"
    by auto
  from page_error_classifies_status[OF r301] goto[of 301]
  have b: "field ''pageError'' (projr (fst (root Map.empty (serving 301) plain_request idle))) = None"
    by auto
  from page_error_classifies_status[OF r418] goto[of 418] t(2) s
  have c: "field ''pageError'' (projr (fst (root Map.empty (serving 418) plain_request idle)))
       = Some ''Unknown Error (status 418)''"
    by auto
  from a b c show ?thesis by blast
qed

text \<open>
  C5. In the response of every request that returns one, the key \<open>screenshot\<close> is there
  exactly when the request set \<open>screenshot\<close> or \<open>screenshot_full_page\<close>. It then holds the
  base64 text of the image that the engine captured, and the capture was asked for with
  \<open>full_page\<close> equal to \<open>screenshot_full_page\<close>. The status of the page plays no part: the
  statement holds for every engine, whatever status its pages have. Line 122 tests the
  truth value of the text, which is false for an empty image only; a PNG file is never
  empty, hence the assumption on the engine.
\<close>

theorem screenshot_iff_requested:
  assumes run: "root env ext body w = (Inr res, w')"
    and png: "\<forall>h. on_screenshot ext h \<noteq> Inr []"
  shows "(map_of res ''screenshot'' \<noteq> None \<longleftrightarrow> screenshot body \<or> screenshot_full_page body)
       \<and> (screenshot body \<or> screenshot_full_page body \<longrightarrow>
            (\<exists>img.
                on_screenshot ext
                  (calls w @ before env body @ [navigation body] @ waiting body
                     @ [Page_content, Page_screenshot (tmp_file ext) (screenshot_full_page body)])
                  = Inr img
              \<and> map_of res ''screenshot'' = Some (JString (b64encode img)))
          \<and> Page_screenshot (tmp_file ext) (screenshot_full_page body)
              \<in> set (calls_made (root env ext body) w))"
proof (cases "screenshot body \<or> screenshot_full_page body")
  case True
  from run True obtain img where
    img: "on_screenshot ext
         (calls w @ before env body @ [navigation body] @ waiting body
            @ [Page_content, Page_screenshot (tmp_file ext) (screenshot_full_page body)])
         = Inr img"
      "map_of res ''screenshot'' = (if img = [] then None else Some (JString (b64encode img)))"
    by (rule root_with_screenshot)
  from img(1) png have "img \<noteq> []"
    by metis
  with img(2) have field: "map_of res ''screenshot'' = Some (JString (b64encode img))"
    by simp
  from root_success[OF run] have "calls w' = calls w @ script env ext body"
    by (elim conjE)
  with run have "calls_made (root env ext body) w = script env ext body"
    by (rule calls_made_eq)
  with screenshot_in_script[OF True] have made:
    "Page_screenshot (tmp_file ext) (screenshot_full_page body) \<in> set (calls_made (root env ext body) w)"
    by simp
  from img(1) field have "\<exists>img.
                on_screenshot ext
                  (calls w @ before env body @ [navigation body] @ waiting body
                     @ [Page_content, Page_screenshot (tmp_file ext) (screenshot_full_page body)])
                  = Inr img
              \<and> map_of res ''screenshot'' = Some (JString (b64encode img))"
    by (intro exI conjI)
  with made field True show ?thesis
    by simp
next
  case False
  from root_without_screenshot[OF run False] False show ?thesis
    by simp
qed

theorem screenshot_iff_requested_witness:
  "(\<forall>h. on_screenshot (serving 404) h \<noteq> Inr [])
   \<and> fst (root Map.empty (serving 404) snapshot_request idle)
       = Inr [(''content'', JString ''<html>ok</html>''), (''pageStatusCode'', JInt 404),
              (''pageError'', JString ''Not Found''), (''screenshot'', JString ''iVBORw=='')]
   \<and> map_of (projr (fst (root Map.empty (serving 404) snapshot_request idle))) ''screenshot'' \<noteq> None
   \<and> map_of (projr (fst (root Map.empty (serving 404) plain_request idle))) ''screenshot'' = None"
proof -
  have png: "\<forall>h. on_screenshot (serving 404) h \<noteq> Inr []"
    by (simp add: serving_def png_magic_def)
  have res: "fst (root Map.empty (serving 404) snapshot_request idle)
       = Inr [(''content'', JString ''<html>ok</html>''), (''pageStatusCode'', JInt 404),
              (''pageError'', JString ''Not Found''), (''screenshot'', JString ''iVBORw=='')]"
    by code_simp
  then have run1: "root Map.empty (serving 404) snapshot_request idle
      = (Inr (projr (fst (root Map.empty (serving 404) snapshot_request idle))),
         snd (root Map.empty (serving 404) snapshot_request idle))"
    by (metis prod.collapse sum.sel(2))
  have "isl (fst (root Map.empty (serving 404) plain_request idle)) = False"
    by code_simp
  then have run2: "root Map.empty (serving 404) plain_request idle
      = (Inr (projr (fst (root Map.empty (serving 404) plain_request idle))),
         snd (root Map.empty (serving 404) plain_request idle))"
    by (metis prod.collapse sum.collapse(2))
  have req: "screenshot snapshot_request" "\<not> screenshot plain_request"
    "\<not> screenshot_full_page plain_request"
    by (simp_all add: snapshot_request_def plain_request_def)
  from screenshot_iff_requested[OF run1 png] req(1)
  have a: "map_of (projr (fst (root Map.empty (serving 404) snapshot_request idle))) ''screenshot'' \<noteq> None"
    by blast
  from screenshot_iff_requested[OF run2 png] req(2,3)
  have b: "map_of (projr (fst (root Map.empty (serving 404) plain_request idle))) ''screenshot'' = None"
    by blast
  from png res a b show ?thesis by blast
qed

text \<open>
  C6, as the source has it. A request that returns a response with a screenshot has
  written the image to the file \<open>tmp_file\<close> (lines 110 to 112) and read it back (lines 113
  and 114); the handler never removes the file, so after the request it is still on disk
  and holds the image. No other file is changed, and a request without a screenshot
  changes no file.
\<close>

theorem screenshot_file_is_kept:
  assumes run: "root env ext body w = (Inr res, w')"
  shows "(screenshot body \<or> screenshot_full_page body \<longrightarrow>
            (\<exists>img. files w' (tmp_file ext) = Some img
                 \<and> (img \<noteq> [] \<longrightarrow> map_of res ''screenshot'' = Some (JString (b64encode img))))
          \<and> (\<forall>p. p \<noteq> tmp_file ext \<longrightarrow> files w' p = files w p))
       \<and> (\<not> (screenshot body \<or> screenshot_full_page body) \<longrightarrow> files w' = files w)"
proof (cases "screenshot body \<or> screenshot_full_page body")
  case True
  from run True obtain img where
    img: "files w' = (files w)(tmp_file ext \<mapsto> img)"
      "map_of res ''screenshot'' = (if img = [] then None else Some (JString (b64encode img)))"
    by (rule root_with_screenshot)
  from img have "files w' (tmp_file ext) = Some img
      \<and> (img \<noteq> [] \<longrightarrow> map_of res ''screenshot'' = Some (JString (b64encode img)))"
    by simp
  then have "\<exists>img. files w' (tmp_file ext) = Some img
                 \<and> (img \<noteq> [] \<longrightarrow> map_of res ''screenshot'' = Some (JString (b64encode img)))"
    by (rule exI)
  moreover from img(1) have "\<forall>p. p \<noteq> tmp_file ext \<longrightarrow> files w' p = files w p"
    by simp
  ultimately show ?thesis
    using True by simp
next
  case False
  from root_without_screenshot[OF run False] False show ?thesis
    by simp
qed

theorem screenshot_file_is_kept_witness:
  "files (snd (root Map.empty (serving 200) snapshot_request idle)) (tmp_file (serving 200))
     = Some png_magic
   \<and> tmp_file (serving 200) = ''/tmp/screenshot_1.5.png''
   \<and> files (snd (root Map.empty (serving 200) plain_request idle)) = files idle"
proof -
  have res: "isl (fst (root Map.empty (serving 200) snapshot_request idle)) = False"
    by code_simp
  then have run1: "root Map.empty (serving 200) snapshot_request idle
      = (Inr (projr (fst (root Map.empty (serving 200) snapshot_request idle))),
         snd (root Map.empty (serving 200) snapshot_request idle))"
    by (metis prod.collapse sum.collapse(2))
  have "isl (fst (root Map.empty (serving 200) plain_request idle)) = False"
    by code_simp
  then have run2: "root Map.empty (serving 200) plain_request idle
      = (Inr (projr (fst (root Map.empty (serving 200) plain_request idle))),
         snd (root Map.empty (serving 200) plain_request idle))"
    by (metis prod.collapse sum.collapse(2))
  have req: "screenshot snapshot_request" "\<not> screenshot plain_request"
    "\<not> screenshot_full_page plain_request"
    by (simp_all add: snapshot_request_def plain_request_def)
  have kept: "files (snd (root Map.empty (serving 200) snapshot_request idle)) (tmp_file (serving 200))
     = Some png_magic"
    by code_simp
  have path: "tmp_file (serving 200) = ''/tmp/screenshot_1.5.png''"
    by code_simp
  from screenshot_file_is_kept[OF run1] req(1)
  have "\<exists>image. files (snd (root Map.empty (serving 200) snapshot_request idle)) (tmp_file (serving 200))
     = Some image"
    by blast
  moreover from screenshot_file_is_kept[OF run2] req(2,3)
  have "files (snd (root Map.empty (serving 200) plain_request idle)) = files idle"
    by blast
  ultimately show ?thesis
    using kept path by blast
qed

text \<open>
  C6 as stated fails: after a request with a screenshot, the file that the request wrote
  is on disk, where no file was before.
\<close>

theorem screenshot_file_kept_counterexample:
  "fst (root Map.empty (serving 200) snapshot_request idle)
     = Inr [(''content'', JString ''<html>ok</html>''), (''pageStatusCode'', JInt 200),
            (''pageError'', JNull), (''screenshot'', JString ''iVBORw=='')]
   \<and> files idle ''/tmp/screenshot_1.5.png'' = None
   \<and> files (snd (root Map.empty (serving 200) snapshot_request idle)) ''/tmp/screenshot_1.5.png''
       = Some [0x89, 0x50, 0x4E, 0x47]"
  by code_simp

text \<open>
  C4. The calls of every request are made in the order of the handler's text, each at
  most once: context, interception rule, page, headers, navigation, wait, content,
  screenshot, close. When headers are supplied (a non-empty dict), they are set right
  before the navigation. When the content is read, it is read right after the
  navigation if \<open>wait_after_load\<close> is zero (or negative), and otherwise after a single
  \<open>wait_for_timeout\<close> call for \<open>wait_after_load\<close> that follows the navigation; the total
  wait that the request asks of the engine is then \<open>wait_after_load\<close>, and zero if no wait
  is due. How long the engine takes for a call is not part of the handler.
\<close>

theorem calls_in_fixed_order:
  assumes run: "root env ext body w = (r, w')"
  shows "sorted_wrt (<) (map stage (calls_made (root env ext body) w))
       \<and> (\<forall>h. headers body = Some h \<and> h \<noteq> []
               \<and> navigation body \<in> set (calls_made (root env ext body) w) \<longrightarrow>
             (\<exists>pre post. calls_made (root env ext body) w
                = pre @ Page_set_extra_http_headers h # navigation body # post))
       \<and> (Page_content \<in> set (calls_made (root env ext body) w) \<longrightarrow>
             (\<exists>pre post. calls_made (root env ext body) w
                = pre @ navigation body
                    # (if wait_after_load body > 0
                       then [Page_wait_for_timeout (wait_after_load body)] else [])
                    @ Page_content # post)
           \<and> total_wait (calls_made (root env ext body) w)
               = (if wait_after_load body > 0 then wait_after_load body else 0))"
proof -
  from root_trace[OF run] obtain evs where
    evs: "calls w' = calls w @ evs" "prefix evs (script env ext body)"
    by blast
  have made: "calls_made (root env ext body) w = evs"
    using run evs(1) by (rule calls_made_eq)
  have order: "sorted_wrt (<) (map stage evs)"
    using evs(2) sorted_script by (rule sorted_prefix)
  have hdrs: "\<exists>pre post. evs = pre @ Page_set_extra_http_headers h # navigation body # post"
    if h: "headers body = Some h" "h \<noteq> []" and nav: "navigation body \<in> set evs" for h
  proof -
    from evs(2) have "prefix evs (before env body @ navigation body # after ext body)"
      by (simp add: script_def)
    from prefix_reaches[OF this nav navigation_not_before] obtain post where
      post: "evs = before env body @ navigation body # post"
      by blast
    from headers_last_before[OF h] obtain pre where
      "before env body = pre @ [Page_set_extra_http_headers h]"
      by blast
    with post have "evs = pre @ Page_set_extra_http_headers h # navigation body # post"
      by simp
    then show ?thesis
      by blast
  qed
  have content: "(\<exists>pre post. evs = pre @ navigation body # waiting body @ Page_content # post)
      \<and> total_wait evs = (if wait_after_load body > 0 then wait_after_load body else 0)"
    if c: "Page_content \<in> set evs"
  proof -
    from evs(2) have "prefix evs ((before env body @ navigation body # waiting body)
        @ Page_content # (capture ext body @ [Context_close]))"
      by (simp add: script_def after_def)
    from prefix_reaches[OF this c content_not_earlier] obtain post where
      post: "evs = (before env body @ navigation body # waiting body) @ Page_content # post"
        "prefix post (capture ext body @ [Context_close])"
      by blast
    from post(2) have "set post \<subseteq> set (capture ext body @ [Context_close])"
      by (rule set_mono_prefix)
    then have "total_wait post = 0"
      using wait_of_capture by (intro total_wait_zero) blast
    moreover have "total_wait (before env body) = 0"
      using wait_of_before by (intro total_wait_zero) blast
    moreover have "total_wait [navigation body] = 0" "total_wait [Page_content] = 0"
      by (simp_all add: total_wait_def navigation_def)
    moreover have "evs = before env body @ [navigation body] @ waiting body @ [Page_content] @ post"
      using post(1) by simp
    ultimately have "total_wait evs = (if wait_after_load body > 0 then wait_after_load body else 0)"
      by (simp only: total_wait_append total_wait_waiting)
    moreover from post(1) have
      "\<exists>pre post. evs = pre @ navigation body # waiting body @ Page_content # post"
      by (intro exI[of _ "before env body"] exI[of _ post]) simp
    ultimately show ?thesis
      by blast
  qed
  from order hdrs content show ?thesis
    unfolding made waiting_def by blast
qed

theorem calls_in_fixed_order_witness:
  "calls_made (root Map.empty (serving 200) patient_request) idle
     = [Browser_new_context None, Context_new_page,
        Page_set_extra_http_headers [(''X-Test'', ''1'')],
        Page_goto ''https://example.com'' ''load'' 5000, Page_wait_for_timeout 250,
        Page_content, Context_close]
   \<and> sorted_wrt (<) (map stage (calls_made (root Map.empty (serving 200) patient_request) idle))
   \<and> (\<exists>pre post. calls_made (root Map.empty (serving 200) patient_request) idle
         = pre @ Page_set_extra_http_headers [(''X-Test'', ''1'')] # navigation patient_request # post)
   \<and> total_wait (calls_made (root Map.empty (serving 200) patient_request) idle) = 250
   \<and> total_wait (calls_made (root Map.empty (serving 200) plain_request) idle) = 0"
proof -
  have made: "calls_made (root Map.empty (serving 200) patient_request) idle
     = [Browser_new_context None, Context_new_page,
        Page_set_extra_http_headers [(''X-Test'', ''1'')],
        Page_goto ''https://example.com'' ''load'' 5000, Page_wait_for_timeout 250,
        Page_content, Context_close]"
    by code_simp
  have made0: "Page_content \<in> set (calls_made (root Map.empty (serving 200) plain_request) idle)"
    by code_simp
  have run: "root Map.empty (serving 200) patient_request idle
    = (fst (root Map.empty (serving 200) patient_request idle),
       snd (root Map.empty (serving 200) patient_request idle))"
    by simp
  have run0: "root Map.empty (serving 200) plain_request idle
    = (fst (root Map.empty (serving 200) plain_request idle),
       snd (root Map.empty (serving 200) plain_request idle))"
    by simp
  have wal: "wait_after_load patient_request = 250" "wait_after_load plain_request = 0"
    by (simp_all add: patient_request_def plain_request_def)
  from made have c: "Page_content \<in> set (calls_made (root Map.empty (serving 200) patient_request) idle)"
    by simp
  have hdrs: "headers patient_request = Some [(''X-Test'', ''1'')]"
    by (simp add: patient_request_def)
  from made have nav: "navigation patient_request
      \<in> set (calls_made (root Map.empty (serving 200) patient_request) idle)"
    by (simp add: navigation_def patient_request_def plain_request_def)
  from calls_in_fixed_order[OF run] c wal(1)
  have a: "sorted_wrt (<) (map stage (calls_made (root Map.empty (serving 200) patient_request) idle))"
    and b: "total_wait (calls_made (root Map.empty (serving 200) patient_request) idle) = 250"
    by simp_all
  from calls_in_fixed_order[OF run] hdrs nav
  have h: "\<exists>pre post. calls_made (root Map.empty (serving 200) patient_request) idle
         = pre @ Page_set_extra_http_headers [(''X-Test'', ''1'')] # navigation patient_request # post"
    by blast
  from calls_in_fixed_order[OF run0] made0 wal(2)
  have "total_wait (calls_made (root Map.empty (serving 200) plain_request) idle) = 0"
    by simp
  with made a b h show ?thesis
    by blast
qed

text \<open>
  C7, as the source has it. Media blocking is on exactly when the variable \<open>BLOCK_MEDIA\<close>
  is set to a text that equals \<open>true\<close> up to the case of its letters. In every request
  that opens a page, a request of the page for the URL \<open>u\<close> is aborted exactly when
  blocking is on and \<open>u\<close> as a whole, query string and fragment included, ends in a dot
  and one of the twelve listed extensions; every other request continues. When blocking
  is on, the rule is registered on the request's own context, between its creation and
  the opening of the page. The handler passes the glob of line 86 to the engine, which
  matches it against the whole URL, not against the resource path.
\<close>

theorem media_blocked_by_extension:
  assumes run: "root env ext body w = (r, w')"
    and page: "Context_new_page \<in> set (calls_made (root env ext body) w)"
  shows "(BLOCK_MEDIA env \<longleftrightarrow>
            (\<exists>s. env ''BLOCK_MEDIA'' = Some s \<and> case_insensitive_equal s ''true''))
       \<and> (\<forall>u. intercept (calls_made (root env ext body) w) u = Abort \<longleftrightarrow>
                 BLOCK_MEDIA env \<and> (\<exists>x \<in> set media_extensions. suffix (CHR ''.'' # x) u))
       \<and> (BLOCK_MEDIA env \<longrightarrow>
            (\<exists>p post. calls_made (root env ext body) w
               = Browser_new_context p # Context_route media_glob Abort # Context_new_page # post))"
proof -
  from root_up_to_page[OF run page] obtain post where
    made: "calls_made (root env ext body) w
       = (Browser_new_context (context_proxy env)
            # (if BLOCK_MEDIA env then [Context_route media_glob Abort] else []))
         @ Context_new_page # post"
    and post: "\<forall>ev \<in> set post. stage ev \<noteq> 1"
    by blast
  from post have "routed (Context_new_page # post) u = None" for u
    by (intro routed_none) auto
  then have "routed (calls_made (root env ext body) w) u
      = (if BLOCK_MEDIA env \<and> url_matches media_glob u then Some Abort else None)" for u
    unfolding made routed_append by simp
  then have "intercept (calls_made (root env ext body) w) u = Abort \<longleftrightarrow>
      BLOCK_MEDIA env \<and> (\<exists>x \<in> set media_extensions. suffix (CHR ''.'' # x) u)" for u
    unfolding intercept_def url_matches_media_glob by simp
  moreover from made have "BLOCK_MEDIA env \<longrightarrow>
            (\<exists>p post. calls_made (root env ext body) w
               = Browser_new_context p # Context_route media_glob Abort # Context_new_page # post)"
    by simp
  ultimately show ?thesis
    using BLOCK_MEDIA_iff[of env] by blast
qed

theorem media_blocked_by_extension_witness:
  "BLOCK_MEDIA blocking
   \<and> calls_made (root blocking (serving 200) plain_request) idle
       = [Browser_new_context None,
          Context_route ''**/*.{png,jpg,jpeg,gif,svg,mp3,mp4,avi,flac,ogg,wav,webm}'' Abort,
          Context_new_page, Page_goto ''https://example.com'' ''load'' 5000, Page_content,
          Context_close]
   \<and> intercept (calls_made (root blocking (serving 200) plain_request) idle)
        ''https://example.com/logo.png'' = Abort
   \<and> intercept (calls_made (root blocking (serving 200) plain_request) idle)
        ''https://example.com/app.js'' = Continue
   \<and> intercept (calls_made (root Map.empty (serving 200) plain_request) idle)
        ''https://example.com/logo.png'' = Continue"
proof -
  have on: "BLOCK_MEDIA blocking"
    by code_simp
  have off: "\<not> BLOCK_MEDIA Map.empty"
    by code_simp
  have made: "calls_made (root blocking (serving 200) plain_request) idle
       = [Browser_new_context None,
          Context_route ''**/*.{png,jpg,jpeg,gif,svg,mp3,mp4,avi,flac,ogg,wav,webm}'' Abort,
          Context_new_page, Page_goto ''https://example.com'' ''load'' 5000, Page_content,
          Context_close]"
    by code_simp
  then have page: "Context_new_page \<in> set (calls_made (root blocking (serving 200) plain_request) idle)"
    by simp
  have page0: "Context_new_page \<in> set (calls_made (root Map.empty (serving 200) plain_request) idle)"
    by code_simp
  have run: "root blocking (serving 200) plain_request idle
    = (fst (root blocking (serving 200) plain_request idle),
       snd (root blocking (serving 200) plain_request idle))"
    by simp
  have run0: "root Map.empty (serving 200) plain_request idle
    = (fst (root Map.empty (serving 200) plain_request idle),
       snd (root Map.empty (serving 200) plain_request idle))"
    by simp
  have png: "\<exists>x \<in> set media_extensions. suffix (CHR ''.'' # x) ''https://example.com/logo.png''"
  proof
    show "''png'' \<in> set media_extensions"
      by (simp add: media_extensions_def)
    have "''https://example.com/logo.png'' = ''https://example.com/logo'' @ CHR ''.'' # ''png''"
      by simp
    then show "suffix (CHR ''.'' # ''png'') ''https://example.com/logo.png''"
      by (rule suffixI)
  qed
  have js: "\<not> (\<exists>x \<in> set media_extensions. suffix (CHR ''.'' # x) ''https://example.com/app.js'')"
    by (simp add: media_extensions_def suffix_def Cons_eq_append_conv append_eq_Cons_conv)
  from media_blocked_by_extension[OF run page] on png
  have a: "intercept (calls_made (root blocking (serving 200) plain_request) idle)
        ''https://example.com/logo.png'' = Abort"
    by blast
  from media_blocked_by_extension[OF run page] js
  have "intercept (calls_made (root blocking (serving 200) plain_request) idle)
        ''https://example.com/app.js'' \<noteq> Abort"
    by blast
  then have b: "intercept (calls_made (root blocking (serving 200) plain_request) idle)
        ''https://example.com/app.js'' = Continue"
    by (cases "intercept (calls_made (root blocking (serving 200) plain_request) idle)
        ''https://example.com/app.js''") simp_all
  from media_blocked_by_extension[OF run0 page0] off
  have "intercept (calls_made (root Map.empty (serving 200) plain_request) idle)
        ''https://example.com/logo.png'' \<noteq> Abort"
    by blast
  then have c: "intercept (calls_made (root Map.empty (serving 200) plain_request) idle)
        ''https://example.com/logo.png'' = Continue"
    by (cases "intercept (calls_made (root Map.empty (serving 200) plain_request) idle)
        ''https://example.com/logo.png''") simp_all
  from on made a b c show ?thesis
    by blast
qed

text \<open>
  C7 as stated fails, both ways. With blocking on, a request for an image whose URL
  carries a query string is not aborted, although its resource path ends in \<open>.png\<close>; and
  a request for a page is aborted, although its resource path is no media file, since
  its query string ends in \<open>.png\<close>.
\<close>

theorem media_blocked_by_url_counterexample:
  "BLOCK_MEDIA blocking
   \<and> Context_new_page \<in> set (calls_made (root blocking (serving 200) plain_request) idle)
   \<and> resource_path ''https://example.com/logo.png?v=2'' = ''https://example.com/logo.png''
   \<and> intercept (calls_made (root blocking (serving 200) plain_request) idle)
        ''https://example.com/logo.png?v=2'' = Continue
   \<and> resource_path ''https://example.com/page?f=a.png'' = ''https://example.com/page''
   \<and> intercept (calls_made (root blocking (serving 200) plain_request) idle)
        ''https://example.com/page?f=a.png'' = Abort"
proof -
  have on: "BLOCK_MEDIA blocking"
    by code_simp
  have page: "Context_new_page \<in> set (calls_made (root blocking (serving 200) plain_request) idle)"
    by code_simp
  have run: "root blocking (serving 200) plain_request idle
    = (fst (root blocking (serving 200) plain_request idle),
       snd (root blocking (serving 200) plain_request idle))"
    by simp
  have paths: "resource_path ''https://example.com/logo.png?v=2'' = ''https://example.com/logo.png''"
    "resource_path ''https://example.com/page?f=a.png'' = ''https://example.com/page''"
    by (simp_all add: resource_path_def)
  have "\<not> (\<exists>x \<in> set media_extensions. suffix (CHR ''.'' # x) ''https://example.com/logo.png?v=2'')"
    by (simp add: media_extensions_def suffix_to_prefix)
  with root_intercept[OF run page, of "''https://example.com/logo.png?v=2''"]
  have a: "intercept (calls_made (root blocking (serving 200) plain_request) idle)
        ''https://example.com/logo.png?v=2'' = Continue"
    by (simp add: not_Abort)
  have "\<exists>x \<in> set media_extensions. suffix (CHR ''.'' # x) ''https://example.com/page?f=a.png''"
  proof
    show "''png'' \<in> set media_extensions"
      by (simp add: media_extensions_def)
    have "''https://example.com/page?f=a.png'' = ''https://example.com/page?f=a'' @ CHR ''.'' # ''png''"
      by simp
    then show "suffix (CHR ''.'' # ''png'') ''https://example.com/page?f=a.png''"
      by (rule suffixI)
  qed
  with root_intercept[OF run page, of "''https://example.com/page?f=a.png''"] on
  have b: "intercept (calls_made (root blocking (serving 200) plain_request) idle)
        ''https://example.com/page?f=a.png'' = Abort"
    by simp
  from on page paths a b show ?thesis
    by blast
qed

end
